theory Spec2Isabelle
  imports Complex_Main "HOL-Library.AList" "HOL-Library.Char_ord" "HOL-Library.List_Lexorder"
    "HOL-Library.Log_Nat" "HOL-Library.Multiset"
begin

section \<open>JavaScript numbers\<close>

text \<open>
  A number is an IEEE 754 double: a finite value (kept as the rational it stands for; the
  two zeros are not told apart), an infinity or NaN. The amount of an expense is a number, or
  \<open>null\<close>: \<open>JSON.stringify\<close> writes \<open>null\<close> for an amount that is not finite, and a later
  request reads that \<open>null\<close> back. In an addition \<open>null\<close> counts as 0.
\<close>

datatype number = Finite rat | PosInf | NegInf | NaN

datatype amount_value = Null | Num number

definition to_number :: "amount_value \<Rightarrow> number" where
  "to_number v = (case v of Null \<Rightarrow> Finite 0 | Num n \<Rightarrow> n)"

text \<open>
  Rounding to the nearest double, ties to the even significand. For \<open>a > 0\<close>, \<open>ilog2 a\<close> is
  the exponent \<open>e\<close> with \<open>2^e \<le> a < 2^(e + 1)\<close>; a double has 53 significant bits, so the
  doubles near \<open>a\<close> are the multiples of \<open>2^(e - 52)\<close>, and of \<open>2^(-1074)\<close> below \<open>2^(-1022)\<close>. A
  result of \<open>2^1024\<close> or more is an infinity.
\<close>

definition pow2 :: "int \<Rightarrow> rat" where
  "pow2 e = (if 0 \<le> e then 2 ^ nat e else 1 / 2 ^ nat (- e))"

definition round_half_even :: "rat \<Rightarrow> int" where
  "round_half_even x =
     (let f = \<lfloor>x\<rfloor>; d = x - of_int f
      in if d < 1 / 2 then f else if 1 / 2 < d then f + 1 else if even f then f else f + 1)"

definition ilog2 :: "rat \<Rightarrow> int" where
  "ilog2 a =
     (let (p, q) = quotient_of a; d = bitlen p - bitlen q in if pow2 d \<le> a then d else d - 1)"

definition round_double :: "rat \<Rightarrow> number" where
  "round_double x =
     (if x = 0 then Finite 0
      else let a = \<bar>x\<bar>;
               e = max (ilog2 a) (- 1022);
               ulp = pow2 (e - 52);
               m = round_half_even (a / ulp)
           in if 1024 \<le> e \<or> (e = 1023 \<and> m = 2 ^ 53) then (if x < 0 then NegInf else PosInf)
              else Finite ((if x < 0 then - 1 else 1) * of_int m * ulp))"

text \<open>The operator \<open>+\<close> on two numbers.\<close>

fun js_add :: "number \<Rightarrow> number \<Rightarrow> number" where
  "js_add (Finite x) (Finite y) = round_double (x + y)"
| "js_add NaN b = NaN"
| "js_add a NaN = NaN"
| "js_add PosInf NegInf = NaN"
| "js_add NegInf PosInf = NaN"
| "js_add PosInf b = PosInf"
| "js_add a PosInf = PosInf"
| "js_add NegInf b = NegInf"
| "js_add a NegInf = NegInf"

text \<open>\<open>isNaN(v)\<close> on an amount: \<open>null\<close> converts to 0.\<close>

definition isNaN :: "amount_value \<Rightarrow> bool" where
  "isNaN v = (to_number v = NaN)"

section \<open>The expense records and the results of a request\<close>

text \<open>
  The server keeps its expenses in one JSON file, read whole by \<open>readExpenses\<close> at the start of
  every request and rewritten whole by \<open>writeExpenses\<close>. A stored expense is what the create
  handler builds: \<open>id\<close>, \<open>date\<close>, \<open>category\<close> and \<open>notes\<close> are strings, \<open>amount\<close> is the number
  \<open>parseFloat\<close> gave (never NaN: the handler rejects it) or, read back from the file,
  \<open>null\<close>, and \<open>description\<close> is whatever the request carried, possibly nothing (\<open>None\<close> is
  JavaScript's \<open>undefined\<close>).

  The three fields \<open>description\<close>, \<open>category\<close>, \<open>amount\<close> are the record \<open>template\<close>, which
  \<open>expense\<close> extends: the recurring report and the tags return templates.
\<close>

record template =
  description :: "string option"
  category :: string
  amount :: amount_value

record expense = template +
  id' :: string
  date :: string
  notes' :: string

datatype error = InvalidRequest | NotFound

text \<open>
  A handler that may call \<open>writeExpenses\<close> returns, beside its response, what it wrote:
  \<open>None\<close> when the file was not rewritten.
\<close>

definition persisted :: "expense list \<Rightarrow> expense list option \<Rightarrow> expense list" where
  "persisted stored written = (case written of None \<Rightarrow> stored | Some expenses \<Rightarrow> expenses)"

section \<open>The host: the JavaScript built-ins the handlers call\<close>

text \<open>
  \<open>Date\<close> and the conversion of a finite number to a string belong to the JavaScript
  engine, and \<open>Date\<close> reads the time zone of the machine. They are parameters of the model:
  \<^item> \<open>parseDate s\<close> is the time value (milliseconds) of \<open>new Date(s)\<close>, \<open>None\<close> for an
    Invalid Date;
  \<^item> \<open>getFullYear t\<close> and \<open>getMonth t\<close> are the local year and the local month (from 0) of
    the time value \<open>t\<close>;
  \<^item> \<open>makeDate y m d\<close> is the time value of \<open>new Date(y, m, d)\<close>, \<open>None\<close> when out of range;
  \<^item> \<open>numberToString\<close> is the string a template literal gives for a finite number.
\<close>

record host =
  parseDate :: "string \<Rightarrow> int option"
  getFullYear :: "int \<Rightarrow> int"
  getMonth :: "int \<Rightarrow> nat"
  makeDate :: "int \<Rightarrow> int \<Rightarrow> int \<Rightarrow> int option"
  numberToString :: "rat \<Rightarrow> string"

section \<open>Strings and numbers\<close>

text \<open>
  A character is one code unit below 256; strings are compared as \<open>Array.prototype.sort\<close>
  compares them without a comparator, code unit by code unit.
\<close>

definition is_digit :: "char \<Rightarrow> bool" where
  "is_digit c = (CHR ''0'' \<le> c \<and> c \<le> CHR ''9'')"

definition digit_val :: "char \<Rightarrow> nat" where
  "digit_val c = of_char c - 48"

definition digit_char :: "nat \<Rightarrow> char" where
  "digit_char n = char_of (48 + n)"

definition digits_value :: "string \<Rightarrow> nat" where
  "digits_value ds = foldl (\<lambda>n c. 10 * n + digit_val c) 0 ds"

text \<open>The decimal digits of an integer, as \<open>Number.prototype.toString\<close> writes them.\<close>

fun show_nat :: "nat \<Rightarrow> string" where
  "show_nat n = (if n < 10 then [digit_char n] else show_nat (n div 10) @ [digit_char (n mod 10)])"

declare show_nat.simps [simp del]

definition show_int :: "int \<Rightarrow> string" where
  "show_int i = (if i < 0 then CHR ''-'' # show_nat (nat (- i)) else show_nat (nat i))"

definition padStart :: "nat \<Rightarrow> char \<Rightarrow> string \<Rightarrow> string" where
  "padStart n c s = replicate (n - length s) c @ s"

text \<open>
  \<open>parseInt(s, 10)\<close>: leading white space is skipped, one sign is read, then the longest run
  of decimal digits; what follows the digits is ignored. \<open>None\<close> is NaN (no digit was read).
  The steps: whether a minus sign comes first, the string after the white space and the
  sign, and the digits it starts with.
\<close>

definition is_space :: "char \<Rightarrow> bool" where
  "is_space c = (of_char c \<in> {9, 10, 11, 12, 13, 32, 160 :: nat})"

definition minus_first :: "string \<Rightarrow> bool" where
  "minus_first s = (let S = dropWhile is_space s in S \<noteq> [] \<and> hd S = CHR ''-'')"

definition unsigned_part :: "string \<Rightarrow> string" where
  "unsigned_part s =
     (let S = dropWhile is_space s
      in if S \<noteq> [] \<and> (hd S = CHR ''+'' \<or> hd S = CHR ''-'') then tl S else S)"

definition leading_digits :: "string \<Rightarrow> string" where
  "leading_digits s = takeWhile is_digit (unsigned_part s)"

definition parseInt10 :: "string \<Rightarrow> int option" where
  "parseInt10 inputString =
     (let sign = (if minus_first inputString then - 1 else 1);
          Z = leading_digits inputString
      in if Z = [] then None else Some (sign * int (digits_value Z)))"

text \<open>
  \<open>parseFloat(s)\<close>: after the leading white space and one sign it reads \<open>Infinity\<close>, or the
  longest decimal literal: digits, a point and digits of a fraction (one of the two runs
  of digits may be missing, not both), and an exponent \<open>e\<close> or \<open>E\<close> with an optional sign and
  digits (skipped when no digit follows). What follows is ignored. With no literal at the
  start the result is NaN; otherwise it is the double nearest to the literal's value.
\<close>

definition after_integer :: "string \<Rightarrow> string" where
  "after_integer s = dropWhile is_digit (unsigned_part s)"

definition fraction_digits :: "string \<Rightarrow> string" where
  "fraction_digits s =
     (let R = after_integer s
      in if R \<noteq> [] \<and> hd R = CHR ''.'' then takeWhile is_digit (tl R) else [])"

definition after_fraction :: "string \<Rightarrow> string" where
  "after_fraction s =
     (let R = after_integer s
      in if R \<noteq> [] \<and> hd R = CHR ''.'' then dropWhile is_digit (tl R) else R)"

definition exponent_of :: "string \<Rightarrow> int" where
  "exponent_of R =
     (if R \<noteq> [] \<and> (hd R = CHR ''e'' \<or> hd R = CHR ''E'')
      then (let T = tl R;
                D = takeWhile is_digit
                      (if T \<noteq> [] \<and> (hd T = CHR ''+'' \<or> hd T = CHR ''-'') then tl T else T)
            in if D = [] then 0
               else (if T \<noteq> [] \<and> hd T = CHR ''-'' then - 1 else 1) * int (digits_value D))
      else 0)"

definition pow10 :: "int \<Rightarrow> rat" where
  "pow10 e = (if 0 \<le> e then 10 ^ nat e else 1 / 10 ^ nat (- e))"

definition parseFloat :: "string \<Rightarrow> number" where
  "parseFloat inputString =
     (if take 8 (unsigned_part inputString) = ''Infinity''
      then (if minus_first inputString then NegInf else PosInf)
      else let I = leading_digits inputString;
               F = fraction_digits inputString
           in if I = [] \<and> F = [] then NaN
              else round_double
                     ((if minus_first inputString then - 1 else 1)
                      * (of_nat (digits_value I) + of_nat (digits_value F) / 10 ^ length F)
                      * pow10 (exponent_of (after_fraction inputString))))"

section \<open>Deleting and modifying an expense\<close>

text \<open>
  \<open>app.delete('/expenses/:id')\<close>: filter the records whose id differs, and write the file
  only when the list became shorter.
\<close>

definition delete_handler :: "string \<Rightarrow> expense list \<Rightarrow> (error + unit) \<times> expense list option" where
  "delete_handler rid stored =
     (let initialLength = length stored;
          expenses = filter (\<lambda>e. id' e \<noteq> rid) stored
      in if length expenses < initialLength then (Inr (), Some expenses)
         else (Inl NotFound, None))"

text \<open>\<open>Array.prototype.findIndex\<close>, with \<open>None\<close> for \<open>-1\<close>.\<close>

fun findIndex :: "('a \<Rightarrow> bool) \<Rightarrow> 'a list \<Rightarrow> nat option" where
  "findIndex P [] = None"
| "findIndex P (x # xs) = (if P x then Some 0 else map_option Suc (findIndex P xs))"

text \<open>
  The body of a PUT request. A field the body does not carry is \<open>None\<close> (\<open>undefined\<close>);
  \<open>body_amount\<close> is the string \<open>parseFloat\<close> reads (it converts its argument to a string first).
\<close>

record update_body =
  body_date :: "string option"
  body_amount :: "string option"
  body_category :: "string option"
  body_description :: "string option"
  body_notes :: "string option"

text \<open>\<open>a || b\<close> on a string that may be missing: \<open>undefined\<close> and the empty string are falsy.\<close>

definition truthy :: "string option \<Rightarrow> bool" where
  "truthy v = (case v of None \<Rightarrow> False | Some s \<Rightarrow> s \<noteq> [])"

definition or_else :: "string option \<Rightarrow> string \<Rightarrow> string" where
  "or_else v d = (case v of None \<Rightarrow> d | Some s \<Rightarrow> if s = [] then d else s)"

text \<open>
  \<open>req.body.amount !== undefined ? parseFloat(req.body.amount) : expenses[index].amount\<close>
\<close>

definition merged_amount :: "update_body \<Rightarrow> expense \<Rightarrow> amount_value" where
  "merged_amount body old =
     (case body_amount body of None \<Rightarrow> amount old | Some a \<Rightarrow> Num (parseFloat a))"

text \<open>
  \<open>app.put('/expenses/:id')\<close>. The handler hands the list with the new record to
  \<open>writeExpenses\<close>; where the new amount is an infinity, the file gets \<open>null\<close>.
\<close>

definition put_handler ::
  "string \<Rightarrow> update_body \<Rightarrow> expense list \<Rightarrow> (error + expense) \<times> expense list option" where
  "put_handler rid body expenses =
     (case findIndex (\<lambda>e. id' e = rid) expenses of
        None \<Rightarrow> (Inl NotFound, None)
      | Some index \<Rightarrow>
          (let old = expenses ! index;
               updatedExpense = old
                 \<lparr> date := or_else (body_date body) (date old),
                   amount := merged_amount body old,
                   category := or_else (body_category body) (category old),
                   description := (if truthy (body_description body)
                                   then body_description body else description old),
                   notes' := (case body_notes body of None \<Rightarrow> notes' old | Some n \<Rightarrow> n) \<rparr>
           in if isNaN (amount updatedExpense) then (Inl InvalidRequest, None)
              else (Inr updatedExpense, Some (expenses[index := updatedExpense]))))"

section \<open>Plain objects used as dictionaries\<close>

text \<open>
  The handlers collect their results in object literals \<open>{}\<close>. An object is the list of its own
  properties in the order of their creation.
  \<^item> \<open>obj_get\<close> reads an own property. (A read of a name that \<open>Object.prototype\<close> defines, such
    as \<open>constructor\<close>, would find the inherited member; no month key and no template key is
    such a name, since both contain a separator. A category may be: then JavaScript
    stores a string where this model stores a number. No statement below reads the
    amount of a category.)
  \<^item> \<open>obj_set\<close> assigns \<open>obj[k] = v\<close>: an existing property keeps its place, a new one goes
    last, and the name \<open>__proto__\<close> creates no property (the assignment reaches the setter of
    \<open>Object.prototype\<close>).
  \<^item> \<open>obj_entries\<close> is the order of \<open>Object.keys\<close>, \<open>Object.values\<close> and \<open>JSON.stringify\<close>:
    the array indices first, ascending, then the other names in creation order.
\<close>

type_synonym 'v obj = "(string \<times> 'v) list"

definition obj_get :: "'v obj \<Rightarrow> string \<Rightarrow> 'v option" where
  "obj_get obj k = map_of obj k"

definition obj_set :: "'v obj \<Rightarrow> string \<Rightarrow> 'v \<Rightarrow> 'v obj" where
  "obj_set obj k v = (if k = ''__proto__'' then obj else AList.update k v obj)"

text \<open>
  \<open>obj[k].f = ...\<close> and \<open>obj[k] += ...\<close>, on a property that exists: the handlers come here
  right after creating the property when it was missing. (Only the name \<open>__proto__\<close> could
  still be missing; no month key and no template key is that name.)
\<close>

definition obj_modify :: "'v obj \<Rightarrow> string \<Rightarrow> ('v \<Rightarrow> 'v) \<Rightarrow> 'v obj" where
  "obj_modify obj k f = (case obj_get obj k of None \<Rightarrow> obj | Some v \<Rightarrow> obj_set obj k (f v))"

text \<open>An array index is the decimal form of an integer from 0 to \<open>2^32 - 2\<close>.\<close>

definition is_array_index :: "string \<Rightarrow> bool" where
  "is_array_index k =
     (k \<noteq> [] \<and> list_all is_digit k \<and> show_nat (digits_value k) = k
      \<and> int (digits_value k) < 4294967295)"

definition obj_entries :: "'v obj \<Rightarrow> (string \<times> 'v) list" where
  "obj_entries obj =
     sort_key (\<lambda>p. digits_value (fst p)) (filter (\<lambda>p. is_array_index (fst p)) obj)
     @ filter (\<lambda>p. \<not> is_array_index (fst p)) obj"

definition obj_keys :: "'v obj \<Rightarrow> string list" where
  "obj_keys obj = map fst (obj_entries obj)"

definition obj_values :: "'v obj \<Rightarrow> 'v list" where
  "obj_values obj = map snd (obj_entries obj)"

section \<open>Month keys and template keys\<close>

text \<open>
  The month key of a date, written out four times in the source:
  \<^verbatim>\<open>`${date.getFullYear()}-${(date.getMonth() + 1).toString().padStart(2, '0')}`\<close>.
  On an Invalid Date both getters give NaN.
\<close>

definition yearMonth_of :: "host \<Rightarrow> int \<Rightarrow> string" where
  "yearMonth_of h t =
     show_int (getFullYear h t) @ ''-'' @ padStart 2 (CHR ''0'') (show_nat (getMonth h t + 1))"

definition yearMonth :: "host \<Rightarrow> string \<Rightarrow> string" where
  "yearMonth h d = (case parseDate h d of None \<Rightarrow> ''NaN-NaN'' | Some t \<Rightarrow> yearMonth_of h t)"

text \<open>An amount inside a template literal.\<close>

definition show_amount :: "host \<Rightarrow> amount_value \<Rightarrow> string" where
  "show_amount h v =
     (case v of
        Null \<Rightarrow> ''null''
      | Num (Finite x) \<Rightarrow> numberToString h x
      | Num PosInf \<Rightarrow> ''Infinity''
      | Num NegInf \<Rightarrow> ''-Infinity''
      | Num NaN \<Rightarrow> ''NaN'')"

text \<open>\<^verbatim>\<open>`${exp.description}|${exp.category}|${exp.amount}`\<close>\<close>

definition templateKey :: "host \<Rightarrow> 'a template_scheme \<Rightarrow> string" where
  "templateKey h e =
     (case description e of None \<Rightarrow> ''undefined'' | Some s \<Rightarrow> s)
     @ ''|'' @ category e @ ''|'' @ show_amount h (amount e)"

definition template_of :: "expense \<Rightarrow> template" where
  "template_of e =
     \<lparr> description = description e, category = category e, amount = amount e \<rparr>"

section \<open>The monthly report\<close>

record bucket =
  total' :: number
  categories :: "number obj"

text \<open>
  \<^verbatim>\<open>if (!c[category]) { c[category] = 0; }  c[category] += exp.amount;\<close>
  A category whose sum is 0 or NaN is falsy and is set to 0 again.
\<close>

definition add_category :: "number obj \<Rightarrow> string \<Rightarrow> amount_value \<Rightarrow> number obj" where
  "add_category c cat a =
     (let c1 = (case obj_get c cat of
                  None \<Rightarrow> obj_set c cat (Finite 0)
                | Some v \<Rightarrow> if v = Finite 0 \<or> v = NaN then obj_set c cat (Finite 0) else c)
      in obj_modify c1 cat (\<lambda>v. js_add v (to_number a)))"

definition monthly_step :: "host \<Rightarrow> expense \<Rightarrow> bucket obj \<Rightarrow> bucket obj" where
  "monthly_step h e monthlyReport =
     (let ym = yearMonth h (date e);
          r1 = (if obj_get monthlyReport ym = None
                then obj_set monthlyReport ym \<lparr> total' = Finite 0, categories = [] \<rparr>
                else monthlyReport)
      in obj_modify r1 ym
           (\<lambda>b. b \<lparr> total' := js_add (total' b) (to_number (amount e)),
                    categories := add_category (categories b) (category e) (amount e) \<rparr>))"

definition monthlyReport :: "host \<Rightarrow> expense list \<Rightarrow> bucket obj" where
  "monthlyReport h expenses = fold (monthly_step h) expenses []"

text \<open>\<open>Object.keys(monthlyReport).sort().reduce((obj, key) => { obj[key] = monthlyReport[key]; ... }, {})\<close>\<close>

definition sortedReport :: "bucket obj \<Rightarrow> bucket obj" where
  "sortedReport report =
     fold (\<lambda>key obj. case obj_get report key of None \<Rightarrow> obj | Some b \<Rightarrow> obj_set obj key b)
       (sort (obj_keys report)) []"

definition monthly_handler :: "host \<Rightarrow> expense list \<Rightarrow> bucket obj" where
  "monthly_handler h stored = sortedReport (monthlyReport h stored)"

section \<open>The comparison of two months\<close>

record month_data = bucket +
  details :: "expense list"

definition compare_step :: "host \<Rightarrow> string \<Rightarrow> string \<Rightarrow> expense \<Rightarrow> month_data obj \<Rightarrow> month_data obj" where
  "compare_step h month1 month2 e comparisonData =
     (let ym = yearMonth h (date e) in
      if ym = month1 \<or> ym = month2 then
        (case obj_get comparisonData ym of
           None \<Rightarrow> comparisonData
         | Some currentMonthData \<Rightarrow>
             obj_set comparisonData ym
               (currentMonthData
                  \<lparr> total' := js_add (total' currentMonthData) (to_number (amount e)),
                    categories := add_category (categories currentMonthData) (category e) (amount e),
                    details := details currentMonthData @ [e] \<rparr>))
      else comparisonData)"

definition comparisonData :: "host \<Rightarrow> string \<Rightarrow> string \<Rightarrow> expense list \<Rightarrow> month_data obj" where
  "comparisonData h month1 month2 expenses =
     fold (compare_step h month1 month2) expenses
       (fold (\<lambda>month cd. obj_set cd month \<lparr> total' = Finite 0, categories = [], details = [] \<rparr>)
          [month1, month2] [])"

text \<open>\<open>if (!month1 || !month2)\<close>: a missing parameter and the empty string are falsy.\<close>

definition compare_handler ::
  "host \<Rightarrow> string option \<Rightarrow> string option \<Rightarrow> expense list \<Rightarrow> error + month_data obj" where
  "compare_handler h q1 q2 stored =
     (if \<not> truthy q1 \<or> \<not> truthy q2 then Inl InvalidRequest
      else Inr (comparisonData h (or_else q1 []) (or_else q2 []) stored))"

section \<open>The window of the last months\<close>

text \<open>
  \<^verbatim>\<open>const numMonths = parseInt(numMonthsParam || '3', 10);
  if (isNaN(numMonths) || numMonths <= 0) { return res.status(400)... }\<close>
  with the default \<open>'2'\<close> in the tags handler.
\<close>

definition numMonths_of :: "string option \<Rightarrow> string \<Rightarrow> error + int" where
  "numMonths_of numMonthsParam dflt =
     (case parseInt10 (or_else numMonthsParam dflt) of
        None \<Rightarrow> Inl InvalidRequest
      | Some numMonths \<Rightarrow> if numMonths \<le> 0 then Inl InvalidRequest else Inr numMonths)"

text \<open>\<open>new Date(now.getFullYear(), now.getMonth() - numMonths, 1)\<close>\<close>

definition cutoffDate :: "host \<Rightarrow> int \<Rightarrow> int \<Rightarrow> int option" where
  "cutoffDate h now numMonths = makeDate h (getFullYear h now) (int (getMonth h now) - numMonths) 1"

text \<open>
  \<open>expDate >= cutoffDate && expDate <= now\<close>: a comparison with an Invalid Date is false.
\<close>

definition in_window :: "host \<Rightarrow> int \<Rightarrow> int \<Rightarrow> expense \<Rightarrow> bool" where
  "in_window h now numMonths e =
     (case parseDate h (date e) of
        None \<Rightarrow> False
      | Some expDate \<Rightarrow>
          (case cutoffDate h now numMonths of
             None \<Rightarrow> False
           | Some cutoff \<Rightarrow> cutoff \<le> expDate \<and> expDate \<le> now))"

definition recentExpenses :: "host \<Rightarrow> int \<Rightarrow> int \<Rightarrow> expense list \<Rightarrow> expense list" where
  "recentExpenses h now numMonths expenses = filter (in_window h now numMonths) expenses"

section \<open>Recurring expenses\<close>

text \<open>
  One entry of \<open>expenseOccurrences\<close>: the first expense of the key without its id, date and
  notes, and the \<open>Set\<close> of the month keys (a list without repetition, in insertion order).
\<close>

record occurrence =
  expense :: template
  months :: "string list"

definition set_add :: "'a \<Rightarrow> 'a list \<Rightarrow> 'a list" where
  "set_add x xs = (if x \<in> set xs then xs else xs @ [x])"

definition occurrence_step :: "host \<Rightarrow> expense \<Rightarrow> occurrence obj \<Rightarrow> occurrence obj" where
  "occurrence_step h e expenseOccurrences =
     (let key = templateKey h e;
          ym = yearMonth h (date e);
          occ1 = (if obj_get expenseOccurrences key = None
                  then obj_set expenseOccurrences key \<lparr> expense = template_of e, months = [] \<rparr>
                  else expenseOccurrences)
      in obj_modify occ1 key (\<lambda>item. item \<lparr> months := set_add ym (months item) \<rparr>))"

definition expenseOccurrences :: "host \<Rightarrow> expense list \<Rightarrow> occurrence obj" where
  "expenseOccurrences h recent = fold (occurrence_step h) recent []"

definition recurringExpenses :: "host \<Rightarrow> int \<Rightarrow> int \<Rightarrow> expense list \<Rightarrow> template list" where
  "recurringExpenses h now numMonths stored =
     map (\<lambda>item. \<lparr> description = description (expense item),
                   category = category (expense item),
                   amount = amount (expense item) \<rparr>)
       (filter (\<lambda>item. 2 \<le> length (months item))
          (obj_values (expenseOccurrences h (recentExpenses h now numMonths stored))))"

definition recurring_handler ::
  "host \<Rightarrow> int \<Rightarrow> string option \<Rightarrow> expense list \<Rightarrow> error + template list" where
  "recurring_handler h now numMonthsParam stored =
     (case numMonths_of numMonthsParam ''3'' of
        Inl e \<Rightarrow> Inl e
      | Inr numMonths \<Rightarrow> Inr (recurringExpenses h now numMonths stored))"

section \<open>Tags\<close>

text \<open>\<open>uniqueTags\<close> is a \<open>Map\<close>: its entries keep their insertion order, and every string is a key.\<close>

definition tag_step :: "host \<Rightarrow> expense \<Rightarrow> (string \<times> template) list \<Rightarrow> (string \<times> template) list" where
  "tag_step h e uniqueTags =
     (let key = templateKey h e in
      if map_of uniqueTags key = None then uniqueTags @ [(key, template_of e)] else uniqueTags)"

definition uniqueTags :: "host \<Rightarrow> int \<Rightarrow> int \<Rightarrow> expense list \<Rightarrow> template list" where
  "uniqueTags h now numMonths stored =
     map snd (fold (tag_step h) (recentExpenses h now numMonths stored) [])"

definition tags_handler ::
  "host \<Rightarrow> int \<Rightarrow> string option \<Rightarrow> expense list \<Rightarrow> error + template list" where
  "tags_handler h now numMonthsParam stored =
     (case numMonths_of numMonthsParam ''2'' of
        Inl e \<Rightarrow> Inl e
      | Inr numMonths \<Rightarrow> Inr (uniqueTags h now numMonths stored))"

section \<open>The words of the specification\<close>

text \<open>
  The specification asks for a positive-integer string: decimal digits only, with a value
  above 0. This predicate is written from those words, to be compared with \<open>numMonths_of\<close>.
\<close>

definition spec_positive_integer_string :: "string \<Rightarrow> bool" where
  "spec_positive_integer_string s = (s \<noteq> [] \<and> list_all is_digit s \<and> 0 < digits_value s)"

text \<open>
  The strings the handlers reject, read off the string itself: no digit after the white
  space and the sign, or a minus sign, or leading digits that are all 0.
\<close>

definition no_positive_leading_integer :: "string \<Rightarrow> bool" where
  "no_positive_leading_integer s =
     (leading_digits s = [] \<or> minus_first s \<or> list_all (\<lambda>c. c = CHR ''0'') (leading_digits s))"

text \<open>
  The strings in which \<open>parseFloat\<close> finds no number, read off the string itself: after the
  white space and the sign comes neither \<open>Infinity\<close> nor a digit nor a point with a digit.
\<close>

definition no_leading_number :: "string \<Rightarrow> bool" where
  "no_leading_number s =
     (let S = unsigned_part s
      in take 8 S \<noteq> ''Infinity''
         \<and> (S = [] \<or> \<not> is_digit (hd S)
                      \<and> \<not> (hd S = CHR ''.'' \<and> tl S \<noteq> [] \<and> is_digit (hd (tl S)))))"

text \<open>A valid amount, in the words of section 3 of the specification: a finite number.\<close>

definition spec_valid_number :: "amount_value \<Rightarrow> bool" where
  "spec_valid_number v = (case v of Num (Finite x) \<Rightarrow> True | _ \<Rightarrow> False)"

text \<open>
  The sum of a list of numbers, added up from 0 in the order of the list
  (\<open>xs.reduce((s, x) => s + x, 0)\<close>), the rational a finite number stands for, and an
  amount that is an integer.
\<close>

definition js_sum :: "number list \<Rightarrow> number" where
  "js_sum xs = foldl js_add (Finite 0) xs"

definition number_int :: "number \<Rightarrow> int" where
  "number_int n = (case n of Finite x \<Rightarrow> \<lfloor>x\<rfloor> | _ \<Rightarrow> 0)"

definition number_rat :: "number \<Rightarrow> rat" where
  "number_rat n = (case n of Finite x \<Rightarrow> x | _ \<Rightarrow> 0)"

definition is_integer :: "number \<Rightarrow> bool" where
  "is_integer n = (n = Finite (of_int (number_int n)))"

section \<open>An example host\<close>

text \<open>
  To run the handlers on examples: a machine whose time zone is UTC. \<open>new Date(s)\<close> reads a
  date \<open>YYYY-MM-DD\<close> as midnight UTC of that day (every other string is taken as an Invalid
  Date here); time values count milliseconds from 1970-01-01. Numbers are written as
  JavaScript writes a short decimal (\<open>10\<close>, \<open>12.5\<close>).
\<close>

definition days_from_civil :: "int \<Rightarrow> int \<Rightarrow> int \<Rightarrow> int" where
  "days_from_civil y m d =
     (let y1 = (if m \<le> 2 then y - 1 else y);
          era = y1 div 400;
          yoe = y1 mod 400;
          doy = (153 * (if 2 < m then m - 3 else m + 9) + 2) div 5 + d - 1;
          doe = yoe * 365 + yoe div 4 - yoe div 100 + doy
      in era * 146097 + doe - 719468)"

definition civil_from_days :: "int \<Rightarrow> int \<times> int" where
  "civil_from_days z =
     (let z1 = z + 719468;
          era = z1 div 146097;
          doe = z1 mod 146097;
          yoe = (doe - doe div 1460 + doe div 36524 - doe div 146096) div 365;
          doy = doe - (365 * yoe + yoe div 4 - yoe div 100);
          mp = (5 * doy + 2) div 153;
          m = (if mp < 10 then mp + 3 else mp - 9)
      in (if m \<le> 2 then yoe + era * 400 + 1 else yoe + era * 400, m))"

definition ms_per_day :: int where
  "ms_per_day = 86400000"

definition days_in_month :: "int \<Rightarrow> int \<Rightarrow> int" where
  "days_in_month y m = days_from_civil (if m = 12 then y + 1 else y) (if m = 12 then 1 else m + 1) 1
                       - days_from_civil y m 1"

definition utc_parseDate :: "string \<Rightarrow> int option" where
  "utc_parseDate s =
     (if length s = 10 \<and> s ! 4 = CHR ''-'' \<and> s ! 7 = CHR ''-''
         \<and> list_all is_digit (take 4 s @ take 2 (drop 5 s) @ drop 8 s)
      then (let y = int (digits_value (take 4 s));
                m = int (digits_value (take 2 (drop 5 s)));
                d = int (digits_value (drop 8 s))
            in if 1 \<le> m \<and> m \<le> 12 \<and> 1 \<le> d \<and> d \<le> days_in_month y m
               then Some (days_from_civil y m d * ms_per_day) else None)
      else None)"

definition utc_makeDate :: "int \<Rightarrow> int \<Rightarrow> int \<Rightarrow> int option" where
  "utc_makeDate y m d =
     (let y1 = (if 0 \<le> y \<and> y \<le> 99 then 1900 + y else y);
          t = (days_from_civil (y1 + m div 12) (m mod 12 + 1) 1 + (d - 1)) * ms_per_day
      in if \<bar>t\<bar> \<le> 8640000000000000 then Some t else None)"

fun frac_digits :: "nat \<Rightarrow> int \<Rightarrow> int \<Rightarrow> string" where
  "frac_digits 0 r q = []"
| "frac_digits (Suc n) r q =
     (if r = 0 then [] else digit_char (nat (10 * r div q)) # frac_digits n (10 * r mod q) q)"

definition show_rat :: "rat \<Rightarrow> string" where
  "show_rat x =
     (let (p, q) = quotient_of x;
          a = \<bar>p\<bar>
      in (if p < 0 then ''-'' else []) @ show_nat (nat (a div q))
         @ (if a mod q = 0 then [] else CHR ''.'' # frac_digits 20 (a mod q) q))"

definition utc_host :: host where
  "utc_host =
     \<lparr> parseDate = utc_parseDate,
       getFullYear = (\<lambda>t. fst (civil_from_days (t div ms_per_day))),
       getMonth = (\<lambda>t. nat (snd (civil_from_days (t div ms_per_day)) - 1)),
       makeDate = utc_makeDate,
       numberToString = show_rat \<rparr>"

section \<open>Example data\<close>

text \<open>
  The three expenses of the examples in section 8 of the specification, and a moment in
  March 2024 (2024-03-15, midnight UTC).
\<close>

definition coffee_jan :: expense where
  "coffee_jan = \<lparr> description = Some ''Coffee'', category = ''Food'', amount = Num (Finite 10),
                   id' = ''1'', date = ''2024-01-05'', notes' = [] \<rparr>"

definition coffee_feb :: expense where
  "coffee_feb = \<lparr> description = Some ''Coffee'', category = ''Food'', amount = Num (Finite 10),
                   id' = ''2'', date = ''2024-02-05'', notes' = [] \<rparr>"

definition snack_mar :: expense where
  "snack_mar = \<lparr> description = Some ''Snack'', category = ''Food'', amount = Num (Finite 5),
                  id' = ''3'', date = ''2024-03-01'', notes' = [] \<rparr>"

text \<open>Two expenses whose fields contain the separator of the template key.\<close>

definition pipe_jan :: expense where
  "pipe_jan = \<lparr> description = Some ''a|b'', category = ''c'', amount = Num (Finite 10),
                 id' = ''4'', date = ''2024-01-05'', notes' = [] \<rparr>"

definition pipe_feb :: expense where
  "pipe_feb = \<lparr> description = Some ''a'', category = ''b|c'', amount = Num (Finite 10),
                 id' = ''5'', date = ''2024-02-05'', notes' = [] \<rparr>"

definition example_expenses :: "expense list" where
  "example_expenses = [coffee_jan, coffee_feb, snack_mar]"

definition march_2024 :: int where
  "march_2024 = 1710460800000"

definition amount_only :: "string \<Rightarrow> update_body" where
  "amount_only a = \<lparr> body_date = None, body_amount = Some a, body_category = None,
                     body_description = None, body_notes = None \<rparr>"

text \<open>
  Four expenses whose amounts are not integers, as the create handler stores them: each
  amount is what \<open>parseFloat\<close> gives for the decimal of the request.
\<close>

definition rounding_expenses :: "expense list" where
  "rounding_expenses =
     [\<lparr> description = Some ''Bread'', category = ''Food'', amount = Num (parseFloat ''0.1''),
        id' = ''6'', date = ''2024-01-05'', notes' = [] \<rparr>,
      \<lparr> description = Some ''Milk'', category = ''Food'', amount = Num (parseFloat ''0.2''),
        id' = ''7'', date = ''2024-01-06'', notes' = [] \<rparr>,
      \<lparr> description = Some ''Fuel'', category = ''Car'', amount = Num (parseFloat ''19.99''),
        id' = ''8'', date = ''2024-02-05'', notes' = [] \<rparr>,
      \<lparr> description = Some ''Toll'', category = ''Car'', amount = Num (parseFloat ''12.49''),
        id' = ''9'', date = ''2024-02-06'', notes' = [] \<rparr>]"

section \<open>Lists\<close>

lemma findIndex_None: "findIndex P xs = None \<longleftrightarrow> (\<forall>x \<in> set xs. \<not> P x)"
  by (induction xs) auto

lemma findIndex_Some: "findIndex P xs = Some i \<Longrightarrow> i < length xs \<and> P (xs ! i)"
  by (induction xs arbitrary: i) (auto split: if_splits)

lemma filter_shorter: "length (filter P xs) < length xs \<longleftrightarrow> (\<exists>x \<in> set xs. \<not> P x)"
proof -
  have "length (filter P xs) = length xs \<longleftrightarrow> (\<forall>x \<in> set xs. P x)"
    by (metis filter_True length_filter_less less_irrefl)
  moreover have "length (filter P xs) \<le> length xs"
    by simp
  ultimately show ?thesis
    by (metis le_neq_implies_less less_irrefl)
qed


section \<open>Objects\<close>

lemma obj_entries_mset: "mset (obj_entries obj) = mset obj"
  by (simp add: obj_entries_def)

lemma obj_keys_mset: "mset (obj_keys obj) = mset (map fst obj)"
  by (metis obj_keys_def mset_map obj_entries_mset)

lemma set_obj_entries: "set (obj_entries obj) = set obj"
  by (metis obj_entries_mset set_mset_mset)

lemma set_obj_keys: "set (obj_keys obj) = fst ` set obj"
  by (simp add: obj_keys_def set_obj_entries)

lemma distinct_obj_keys: "distinct (obj_keys obj) = distinct (map fst obj)"
  by (rule mset_eq_imp_distinct_iff) (rule obj_keys_mset)

lemma length_obj_keys: "length (obj_keys obj) = length obj"
  by (metis obj_keys_mset size_mset length_map)

lemma obj_get_set:
  "obj_get (obj_set obj k v) k' =
     (if k = ''__proto__'' then obj_get obj k' else if k' = k then Some v else obj_get obj k')"
  by (simp add: obj_get_def obj_set_def update_conv')

lemma keys_obj_set:
  "map fst (obj_set obj k v) =
     (if k = ''__proto__'' \<or> k \<in> fst ` set obj then map fst obj else map fst obj @ [k])"
  by (simp add: obj_set_def update_keys)

lemma key_set_obj_set:
  "fst ` set (obj_set obj k v) =
     (if k = ''__proto__'' then fst ` set obj else insert k (fst ` set obj))"
proof -
  have "fst ` set (obj_set obj k v) = set (map fst (obj_set obj k v))"
    by simp
  also have "\<dots> = (if k = ''__proto__'' then fst ` set obj else insert k (fst ` set obj))"
    unfolding keys_obj_set by auto
  finally show ?thesis .
qed

lemma distinct_obj_set:
  "distinct (map fst obj) \<Longrightarrow> distinct (map fst (obj_set obj k v))"
  by (simp add: keys_obj_set)

lemma obj_get_None: "obj_get obj k = None \<longleftrightarrow> k \<notin> fst ` set obj"
  by (simp add: obj_get_def map_of_eq_None_iff)

lemma obj_get_Some_mem: "obj_get obj k = Some v \<Longrightarrow> k \<in> fst ` set obj"
  by (metis obj_get_None option.distinct(1))

lemma obj_get_Some_iff:
  "distinct (map fst obj) \<Longrightarrow> obj_get obj k = Some v \<longleftrightarrow> (k, v) \<in> set obj"
  by (simp add: obj_get_def)

lemma dash_not_digit: "\<not> is_digit (CHR ''-'')"
  by (simp add: is_digit_def)

lemma dash_not_index: "CHR ''-'' \<in> set k \<Longrightarrow> \<not> is_array_index k"
  using dash_not_digit by (auto simp: is_array_index_def list_all_iff)

lemma bar_not_digit: "\<not> is_digit (CHR ''|'')"
  by (simp add: is_digit_def)

lemma bar_not_index: "CHR ''|'' \<in> set k \<Longrightarrow> \<not> is_array_index k"
  using bar_not_digit by (auto simp: is_array_index_def list_all_iff)

lemma obj_entries_plain:
  assumes "\<forall>k \<in> fst ` set obj. \<not> is_array_index k"
  shows "obj_entries obj = obj"
proof -
  from assms have "filter (\<lambda>p. is_array_index (fst p)) obj = []"
    by (auto simp: filter_empty_conv)
  moreover from assms have "filter (\<lambda>p. \<not> is_array_index (fst p)) obj = obj"
    by (auto simp: filter_id_conv)
  ultimately show ?thesis
    by (simp add: obj_entries_def)
qed

section \<open>Reading the window parameter\<close>

lemma is_digit_iff: "is_digit c \<longleftrightarrow> 48 \<le> (of_char c :: nat) \<and> (of_char c :: nat) \<le> 57"
  by (simp add: is_digit_def less_eq_char_def)

lemma digit_zero: "is_digit c \<Longrightarrow> digit_val c = 0 \<longleftrightarrow> c = CHR ''0''"
proof -
  assume d: "is_digit c"
  have "digit_val c = 0 \<longleftrightarrow> of_char c = (48::nat)"
    using d by (auto simp: is_digit_iff digit_val_def)
  also have "\<dots> \<longleftrightarrow> of_char c = (of_char (CHR ''0'') :: nat)"
    by simp
  also have "\<dots> \<longleftrightarrow> c = CHR ''0''"
    by (simp only: of_char_eq_iff)
  finally show ?thesis .
qed

lemma digits_value_zero_aux:
  "list_all is_digit Z \<Longrightarrow>
   foldl (\<lambda>n c. 10 * n + digit_val c) a Z = 0 \<longleftrightarrow> a = 0 \<and> list_all (\<lambda>c. c = CHR ''0'') Z"
  by (induction Z arbitrary: a) (auto simp: digit_zero)

lemma digits_value_zero:
  "list_all is_digit Z \<Longrightarrow> digits_value Z = 0 \<longleftrightarrow> list_all (\<lambda>c. c = CHR ''0'') Z"
  by (simp add: digits_value_def digits_value_zero_aux)

lemma leading_digits_are_digits: "list_all is_digit (leading_digits s)"
  by (simp add: leading_digits_def list_all_iff) (meson set_takeWhileD)

lemma numMonths_of_rejects:
  "numMonths_of q dflt = Inl InvalidRequest \<longleftrightarrow> no_positive_leading_integer (or_else q dflt)"
  using digits_value_zero [OF leading_digits_are_digits, of "or_else q dflt"]
  by (auto simp: numMonths_of_def parseInt10_def no_positive_leading_integer_def Let_def
      split: option.splits if_splits)

lemma numMonths_of_accepts:
  assumes "spec_positive_integer_string s"
  shows "numMonths_of (Some s) dflt = Inr (int (digits_value s))"
proof -
  from assms have ne: "s \<noteq> []" and dig: "list_all is_digit s" and pos: "0 < digits_value s"
    by (simp_all add: spec_positive_integer_string_def)
  from ne dig have nsp: "\<not> is_space (hd s)" and nsign: "hd s \<noteq> CHR ''+''" "hd s \<noteq> CHR ''-''"
    by (cases s; auto simp: is_digit_iff is_space_def)+
  from ne nsp have "dropWhile is_space s = s"
    by (cases s) auto
  with nsign ne have u: "unsigned_part s = s" and m: "\<not> minus_first s"
    by (simp_all add: unsigned_part_def minus_first_def)
  from dig have "takeWhile is_digit s = s"
    by (simp add: list_all_iff)
  with u have l: "leading_digits s = s"
    by (simp add: leading_digits_def)
  from ne have "or_else (Some s) dflt = s"
    by (simp add: or_else_def)
  with l m ne pos show ?thesis
    by (simp add: numMonths_of_def parseInt10_def)
qed

lemma handlers_reject:
  "recurring_handler h now q stored = Inl InvalidRequest \<longleftrightarrow> numMonths_of q ''3'' = Inl InvalidRequest"
  "tags_handler h now q stored = Inl InvalidRequest \<longleftrightarrow> numMonths_of q ''2'' = Inl InvalidRequest"
  by (auto simp: recurring_handler_def tags_handler_def split: sum.splits)

section \<open>The comparison\<close>

lemma keys_compare_step: "map fst (compare_step h m1 m2 e cd) = map fst cd"
  by (auto simp: compare_step_def Let_def keys_obj_set dest: obj_get_Some_mem split: option.splits)

lemma keys_compare_fold: "map fst (fold (compare_step h m1 m2) es cd) = map fst cd"
  by (induction es arbitrary: cd) (simp_all add: keys_compare_step)

lemma get_compare_step:
  "yearMonth h (date e) \<noteq> m \<Longrightarrow> obj_get (compare_step h m1 m2 e cd) m = obj_get cd m"
  by (auto simp: compare_step_def Let_def obj_get_set split: option.splits)

lemma get_compare_fold:
  "m \<notin> yearMonth h ` date ` set es \<Longrightarrow>
   obj_get (fold (compare_step h m1 m2) es cd) m = obj_get cd m"
  by (induction es arbitrary: cd) (auto simp: get_compare_step)

lemma keys_comparisonData:
  "m1 \<noteq> ''__proto__'' \<Longrightarrow> m2 \<noteq> ''__proto__'' \<Longrightarrow>
   map fst (comparisonData h m1 m2 es) = (if m1 = m2 then [m1] else [m1, m2])"
  by (simp add: comparisonData_def keys_compare_fold keys_obj_set key_set_obj_set)

lemma empty_month_comparisonData:
  assumes "m1 \<noteq> ''__proto__''" "m2 \<noteq> ''__proto__''" "m \<in> {m1, m2}"
    and "m \<notin> yearMonth h ` date ` set es"
  shows "obj_get (comparisonData h m1 m2 es) m = Some \<lparr> total' = Finite 0, categories = [], details = [] \<rparr>"
  using assms by (auto simp: comparisonData_def get_compare_fold obj_get_set)

text \<open>
  The reserved name: with \<open>month1 = __proto__\<close> the first assignment creates no property, and
  the answer has the other month only.
\<close>

lemma compare_reserved_name:
  "\<exists>cd. compare_handler h (Some ''__proto__'') (Some ''2024-01'') stored = Inr cd
        \<and> obj_keys cd = [''2024-01'']"
proof -
  let ?cd = "comparisonData h ''__proto__'' ''2024-01'' stored"
  have keys: "map fst ?cd = [''2024-01'']"
    by (simp add: comparisonData_def keys_compare_fold keys_obj_set key_set_obj_set)
  then have "fst ` set ?cd = {''2024-01''}"
    by (metis list.set(1) list.simps(15) set_map)
  then have "obj_entries ?cd = ?cd"
    by (intro obj_entries_plain) (simp add: dash_not_index)
  with keys have "obj_keys ?cd = [''2024-01'']"
    by (simp add: obj_keys_def)
  then show ?thesis
    by (simp add: compare_handler_def truthy_def or_else_def)
qed

lemma example_months:
  "map (\<lambda>e. yearMonth utc_host (date e)) example_expenses = [''2024-01'', ''2024-02'', ''2024-03'']"
  by code_simp

section \<open>The monthly report: keys and totals\<close>

lemma dash_in_yearMonth: "CHR ''-'' \<in> set (yearMonth h d)"
  by (simp add: yearMonth_def yearMonth_of_def split: option.splits)

lemma yearMonth_not_reserved: "yearMonth h d \<noteq> ''__proto__''"
proof
  assume "yearMonth h d = ''__proto__''"
  with dash_in_yearMonth [of h d] show False
    by simp
qed

lemma keys_obj_modify: "map fst (obj_modify obj k f) = map fst obj"
proof (cases "obj_get obj k")
  case None
  then show ?thesis
    by (simp add: obj_modify_def)
next
  case (Some v)
  then have "k \<in> fst ` set obj"
    by (rule obj_get_Some_mem)
  with Some show ?thesis
    by (simp add: obj_modify_def keys_obj_set)
qed

lemma key_set_obj_modify: "fst ` set (obj_modify obj k f) = fst ` set obj"
proof -
  have "set (map fst (obj_modify obj k f)) = set (map fst obj)"
    by (simp only: keys_obj_modify)
  then show ?thesis
    by simp
qed

lemma update_fresh: "k \<notin> fst ` set al \<Longrightarrow> AList.update k v al = al @ [(k, v)]"
  by (induction al) auto

lemma distinct_monthly_step:
  "distinct (map fst r) \<Longrightarrow> distinct (map fst (monthly_step h e r))"
  by (simp add: monthly_step_def Let_def keys_obj_modify distinct_obj_set)

lemma dashes_monthly_step:
  assumes "\<forall>k \<in> fst ` set r. CHR ''-'' \<in> set k"
  shows "\<forall>k \<in> fst ` set (monthly_step h e r). CHR ''-'' \<in> set k"
proof
  fix k
  assume k: "k \<in> fst ` set (monthly_step h e r)"
  let ?ym = "yearMonth h (date e)"
  let ?z = "\<lparr> total' = Finite 0, categories = [] \<rparr>"
  have "fst ` set (monthly_step h e r)
        = fst ` set (if obj_get r ?ym = None then obj_set r ?ym ?z else r)"
    unfolding monthly_step_def Let_def by (rule key_set_obj_modify)
  also have "\<dots> \<subseteq> insert ?ym (fst ` set r)"
  proof (cases "obj_get r ?ym = None")
    case True
    then show ?thesis
      by (auto simp: key_set_obj_set)
  next
    case False
    then show ?thesis
      by auto
  qed
  finally have "k = ?ym \<or> k \<in> fst ` set r"
    using k by blast
  then show "CHR ''-'' \<in> set k"
    using assms dash_in_yearMonth [of h "date e"] by blast
qed

lemma monthly_fold_invariant:
  assumes "distinct (map fst r)" and "\<forall>k \<in> fst ` set r. CHR ''-'' \<in> set k"
  shows "distinct (map fst (fold (monthly_step h) es r))
         \<and> (\<forall>k \<in> fst ` set (fold (monthly_step h) es r). CHR ''-'' \<in> set k)"
  using assms
proof (induction es arbitrary: r)
  case Nil
  then show ?case by simp
next
  case (Cons e es)
  from Cons.prems(1) have d: "distinct (map fst (monthly_step h e r))"
    by (rule distinct_monthly_step)
  from Cons.prems(2) have a: "\<forall>k \<in> fst ` set (monthly_step h e r). CHR ''-'' \<in> set k"
    by (rule dashes_monthly_step)
  have f: "fold (monthly_step h) (e # es) r = fold (monthly_step h) es (monthly_step h e r)"
    by simp
  from Cons.IH [OF d a] show ?case
    unfolding f .
qed

lemma monthlyReport_invariant:
  "distinct (map fst (monthlyReport h es))"
  "\<forall>k \<in> fst ` set (monthlyReport h es). CHR ''-'' \<in> set k"
  using monthly_fold_invariant [of "[]" h es] by (simp_all add: monthlyReport_def)

lemma obj_keys_plain: "\<forall>k \<in> fst ` set obj. CHR ''-'' \<in> set k \<Longrightarrow> obj_keys obj = map fst obj"
  by (simp add: obj_keys_def obj_entries_plain dash_not_index)

lemma reduce_sorted_keys:
  assumes "set ks \<subseteq> fst ` set r" and "distinct ks" and "set ks \<inter> fst ` set acc = {}"
    and "''__proto__'' \<notin> set ks"
  shows "fold (\<lambda>key obj. case obj_get r key of None \<Rightarrow> obj | Some b \<Rightarrow> obj_set obj key b) ks acc
         = acc @ map (\<lambda>k. (k, the (obj_get r k))) ks"
  using assms
proof (induction ks arbitrary: acc)
  case Nil
  then show ?case by simp
next
  case (Cons k ks)
  from Cons.prems(1) obtain b where b: "obj_get r k = Some b"
    by (cases "obj_get r k") (auto simp: obj_get_None)
  from Cons.prems have fresh: "k \<notin> fst ` set acc" and np: "k \<noteq> ''__proto__''"
    by auto
  then have step: "obj_set acc k b = acc @ [(k, b)]"
    by (simp add: obj_set_def update_fresh)
  have "set ks \<inter> fst ` set (acc @ [(k, b)]) = {}"
    using Cons.prems by auto
  with Cons.IH [of "acc @ [(k, b)]"] Cons.prems b step show ?case
    by simp
qed

lemma sortedReport_eq:
  assumes "distinct (map fst r)" and "\<forall>k \<in> fst ` set r. CHR ''-'' \<in> set k"
  shows "sortedReport r = map (\<lambda>k. (k, the (obj_get r k))) (sort (map fst r))"
proof -
  have "''__proto__'' \<notin> fst ` set r"
    using assms(2) by fastforce
  then have "''__proto__'' \<notin> set (sort (map fst r))"
    by simp
  moreover have "distinct (sort (map fst r))"
    using assms(1) by simp
  ultimately show ?thesis
    using reduce_sorted_keys [of "sort (map fst r)" r "[]"]
    by (simp add: sortedReport_def obj_keys_plain [OF assms(2)])
qed

lemma keys_monthly_handler:
  "obj_keys (monthly_handler h es) = sort (map fst (monthlyReport h es))"
proof -
  let ?r = "monthlyReport h es"
  have eq: "monthly_handler h es = map (\<lambda>k. (k, the (obj_get ?r k))) (sort (map fst ?r))"
    unfolding monthly_handler_def by (rule sortedReport_eq) (rule monthlyReport_invariant)+
  have "\<forall>k \<in> fst ` set (monthly_handler h es). CHR ''-'' \<in> set k"
    unfolding eq using monthlyReport_invariant(2) [of h es] by (auto simp: image_image)
  then have "obj_keys (monthly_handler h es) = map fst (monthly_handler h es)"
    by (rule obj_keys_plain)
  then show ?thesis
    unfolding eq by (simp add: comp_def)
qed

lemma get_monthly_handler:
  assumes "k \<in> fst ` set (monthlyReport h es)"
  shows "obj_get (monthly_handler h es) k = obj_get (monthlyReport h es) k"
proof -
  let ?r = "monthlyReport h es"
  have eq: "monthly_handler h es = map (\<lambda>k. (k, the (obj_get ?r k))) (sort (map fst ?r))"
    unfolding monthly_handler_def by (rule sortedReport_eq) (rule monthlyReport_invariant)+
  from assms obtain b where b: "obj_get ?r k = Some b"
    by (cases "obj_get ?r k") (auto simp: obj_get_None)
  have "map_of (map (\<lambda>k. (k, the (obj_get ?r k))) (sort (map fst ?r))) k = Some (the (obj_get ?r k))"
    using assms by (simp add: map_of_map_restrict restrict_map_def)
  with b show ?thesis
    unfolding eq by (simp add: obj_get_def)
qed

section \<open>Month keys in order\<close>

lemma digit_val_digit_char: "d < 10 \<Longrightarrow> digit_val (digit_char d) = d"
  by (simp add: digit_val_def digit_char_def)

lemma is_digit_digit_char: "d < 10 \<Longrightarrow> is_digit (digit_char d)"
  by (simp add: is_digit_iff digit_char_def)

lemma digits_value_snoc: "digits_value (ds @ [c]) = 10 * digits_value ds + digit_val c"
  by (simp add: digits_value_def)

lemma digits_value_show_nat: "digits_value (show_nat n) = n"
proof (induction n rule: show_nat.induct)
  case (1 n)
  show ?case
  proof (cases "n < 10")
    case True
    then show ?thesis
      by (simp add: show_nat.simps [of n] digits_value_def digit_val_digit_char)
  next
    case False
    with "1" show ?thesis
      by (simp add: show_nat.simps [of n] digits_value_snoc digit_val_digit_char)
  qed
qed

lemma digits_show_nat: "list_all is_digit (show_nat n)"
proof (induction n rule: show_nat.induct)
  case (1 n)
  show ?case
  proof (cases "n < 10")
    case True
    then show ?thesis
      by (simp add: show_nat.simps [of n] is_digit_digit_char)
  next
    case False
    with "1" show ?thesis
      by (simp add: show_nat.simps [of n] is_digit_digit_char)
  qed
qed

lemma length_show_nat: "10 ^ k \<le> n \<Longrightarrow> n < 10 ^ Suc k \<Longrightarrow> length (show_nat n) = Suc k"
proof (induction k arbitrary: n)
  case 0
  then show ?case
    by (simp add: show_nat.simps [of n])
next
  case (Suc k)
  define p :: nat where "p = 10 ^ k"
  from Suc.prems have lo: "10 * p \<le> n" and hi: "n < 10 * (10 * p)"
    by (simp_all add: p_def)
  have "1 \<le> p"
    by (simp add: p_def)
  with lo have big: "\<not> n < 10"
    by arith
  from lo hi have "p \<le> n div 10" and "n div 10 < 10 * p"
    by arith+
  then have "length (show_nat (n div 10)) = Suc k"
    using Suc.IH [of "n div 10"] by (simp add: p_def)
  with big show ?case
    by (simp add: show_nat.simps [of n])
qed

lemma length_show_nat_4: "1000 \<le> n \<Longrightarrow> n < 10000 \<Longrightarrow> length (show_nat n) = 4"
  using length_show_nat [of 3 n] by simp

lemma length_padded_month: "1 \<le> n \<Longrightarrow> n < 100 \<Longrightarrow> length (padStart 2 (CHR ''0'') (show_nat n)) = 2"
  using length_show_nat [of 0 n] length_show_nat [of 1 n]
  by (cases "n < 10") (simp_all add: padStart_def)

lemma digits_value_Cons:
  "digits_value (c # ds) = digit_val c * 10 ^ length ds + digits_value ds"
proof (induction ds rule: rev_induct)
  case Nil
  then show ?case
    by (simp add: digits_value_def)
next
  case (snoc d ds)
  have "digits_value (c # ds @ [d]) = 10 * digits_value (c # ds) + digit_val d"
    using digits_value_snoc [of "c # ds" d] by simp
  with snoc show ?case
    by (simp add: digits_value_snoc algebra_simps)
qed

lemma digits_value_bound: "list_all is_digit ds \<Longrightarrow> digits_value ds < 10 ^ length ds"
proof (induction ds)
  case Nil
  then show ?case
    by (simp add: digits_value_def)
next
  case (Cons c ds)
  then have "digit_val c \<le> 9" and "digits_value ds < 10 ^ length ds"
    by (auto simp: is_digit_iff digit_val_def)
  then have "digit_val c * 10 ^ length ds + digits_value ds < 9 * 10 ^ length ds + 10 ^ length ds"
    by (meson add_le_less_mono mult_le_mono1)
  then show ?case
    by (simp add: digits_value_Cons)
qed

lemma digit_less: "is_digit a \<Longrightarrow> is_digit b \<Longrightarrow> a < b \<longleftrightarrow> digit_val a < digit_val b"
  by (auto simp: is_digit_iff digit_val_def less_char_def)

lemma digit_eq: "is_digit a \<Longrightarrow> is_digit b \<Longrightarrow> a = b \<longleftrightarrow> digit_val a = digit_val b"
proof -
  assume "is_digit a" "is_digit b"
  then have "digit_val a = digit_val b \<Longrightarrow> (of_char a :: nat) = of_char b"
    unfolding is_digit_iff digit_val_def by arith
  then show ?thesis
    by auto
qed

lemma digits_less:
  "length xs = length ys \<Longrightarrow> list_all is_digit xs \<Longrightarrow> list_all is_digit ys \<Longrightarrow>
   xs < ys \<longleftrightarrow> digits_value xs < digits_value ys"
proof (induction xs ys rule: list_induct2)
  case Nil
  then show ?case by simp
next
  case (Cons x xs y ys)
  then have dx: "is_digit x" and dy: "is_digit y"
    and ih: "xs < ys \<longleftrightarrow> digits_value xs < digits_value ys"
    and bx: "digits_value xs < 10 ^ length ys" and by': "digits_value ys < 10 ^ length ys"
    using digits_value_bound [of xs] digits_value_bound [of ys] by auto
  let ?p = "(10::nat) ^ length ys"
  have num: "digit_val x * ?p + digits_value xs < digit_val y * ?p + digits_value ys
             \<longleftrightarrow> digit_val x < digit_val y
                \<or> digit_val x = digit_val y \<and> digits_value xs < digits_value ys"
  proof (cases "digit_val x < digit_val y")
    case True
    then have "(digit_val x + 1) * ?p \<le> digit_val y * ?p"
      by (intro mult_le_mono1) simp
    with bx True show ?thesis
      by (simp add: algebra_simps)
  next
    case False
    show ?thesis
    proof (cases "digit_val x = digit_val y")
      case True
      then show ?thesis by simp
    next
      case ne: False
      with False have "digit_val y < digit_val x"
        by simp
      then have "(digit_val y + 1) * ?p \<le> digit_val x * ?p"
        by (intro mult_le_mono1) simp
      with by' ne False show ?thesis
        by (simp add: algebra_simps)
    qed
  qed
  from Cons.hyps have len: "length xs = length ys" .
  show ?case
    unfolding Cons_less_Cons digits_value_Cons len ih digit_less [OF dx dy] digit_eq [OF dx dy]
    using num by simp
qed

lemma digits_inj:
  "length xs = length ys \<Longrightarrow> list_all is_digit xs \<Longrightarrow> list_all is_digit ys \<Longrightarrow>
   xs = ys \<longleftrightarrow> digits_value xs = digits_value ys"
  using digits_less [of xs ys] digits_less [of ys xs]
  by (metis less_irrefl linorder_less_linear)

lemma append_less:
  "length xs = length ys \<Longrightarrow> xs @ a < ys @ b \<longleftrightarrow> xs < ys \<or> xs = ys \<and> a < (b :: string)"
  by (induction xs ys rule: list_induct2) auto

lemma padded_month:
  assumes "1 \<le> n" and "n < 100"
  shows "length (padStart 2 (CHR ''0'') (show_nat n)) = 2"
    and "list_all is_digit (padStart 2 (CHR ''0'') (show_nat n))"
    and "digits_value (padStart 2 (CHR ''0'') (show_nat n)) = n"
proof -
  show "length (padStart 2 (CHR ''0'') (show_nat n)) = 2"
    using assms by (rule length_padded_month)
  have zero: "is_digit (CHR ''0'')" "digit_val (CHR ''0'') = 0"
    by (simp_all add: is_digit_def digit_val_def)
  have pad: "padStart 2 (CHR ''0'') (show_nat n)
             = (if n < 10 then CHR ''0'' # show_nat n else show_nat n)"
    using assms length_show_nat [of 0 n] length_show_nat [of 1 n]
    by (cases "n < 10") (simp_all add: padStart_def)
  show "list_all is_digit (padStart 2 (CHR ''0'') (show_nat n))"
    unfolding pad using zero digits_show_nat [of n] by simp
  show "digits_value (padStart 2 (CHR ''0'') (show_nat n)) = n"
    unfolding pad using zero by (simp add: digits_value_Cons digits_value_show_nat)
qed

lemma yearMonth_of_less:
  assumes y1: "1000 \<le> getFullYear h t1" "getFullYear h t1 \<le> 9999" and m1: "getMonth h t1 < 12"
    and y2: "1000 \<le> getFullYear h t2" "getFullYear h t2 \<le> 9999" and m2: "getMonth h t2 < 12"
  shows "yearMonth_of h t1 < yearMonth_of h t2 \<longleftrightarrow>
           getFullYear h t1 < getFullYear h t2
           \<or> getFullYear h t1 = getFullYear h t2 \<and> getMonth h t1 < getMonth h t2"
    and "yearMonth_of h t1 = yearMonth_of h t2 \<longleftrightarrow>
           getFullYear h t1 = getFullYear h t2 \<and> getMonth h t1 = getMonth h t2"
proof -
  let ?Y1 = "show_nat (nat (getFullYear h t1))" and ?Y2 = "show_nat (nat (getFullYear h t2))"
  let ?M1 = "padStart 2 (CHR ''0'') (show_nat (getMonth h t1 + 1))"
  let ?M2 = "padStart 2 (CHR ''0'') (show_nat (getMonth h t2 + 1))"
  have k1: "yearMonth_of h t1 = ?Y1 @ (CHR ''-'' # ?M1)"
    and k2: "yearMonth_of h t2 = ?Y2 @ (CHR ''-'' # ?M2)"
    using y1 y2 by (simp_all add: yearMonth_of_def show_int_def)
  have len: "length ?Y1 = length ?Y2"
    using y1 y2 by (simp add: length_show_nat_4)
  have Yless: "?Y1 < ?Y2 \<longleftrightarrow> getFullYear h t1 < getFullYear h t2"
    using digits_less [OF len digits_show_nat digits_show_nat] y1 y2
    by (simp add: digits_value_show_nat)
  have Yeq: "?Y1 = ?Y2 \<longleftrightarrow> getFullYear h t1 = getFullYear h t2"
    using digits_inj [OF len digits_show_nat digits_show_nat] y1 y2
    by (simp add: digits_value_show_nat) arith
  have p1: "1 \<le> getMonth h t1 + 1" "getMonth h t1 + 1 < 100"
    and p2: "1 \<le> getMonth h t2 + 1" "getMonth h t2 + 1 < 100"
    using m1 m2 by simp_all
  have mlen: "length ?M1 = length ?M2"
    using padded_month(1) [OF p1] padded_month(1) [OF p2] by simp
  have v1: "digits_value ?M1 = getMonth h t1 + 1" and v2: "digits_value ?M2 = getMonth h t2 + 1"
    by (rule padded_month(3) [OF p1], rule padded_month(3) [OF p2])
  have Mless: "?M1 < ?M2 \<longleftrightarrow> getMonth h t1 < getMonth h t2"
    using digits_less [OF mlen padded_month(2) [OF p1] padded_month(2) [OF p2]]
    unfolding v1 v2 by simp
  have Meq: "?M1 = ?M2 \<longleftrightarrow> getMonth h t1 = getMonth h t2"
    using digits_inj [OF mlen padded_month(2) [OF p1] padded_month(2) [OF p2]]
    unfolding v1 v2 by simp
  show "yearMonth_of h t1 < yearMonth_of h t2 \<longleftrightarrow>
           getFullYear h t1 < getFullYear h t2
           \<or> getFullYear h t1 = getFullYear h t2 \<and> getMonth h t1 < getMonth h t2"
    unfolding k1 k2 append_less [OF len] Cons_less_Cons Yless Yeq Mless by simp
  show "yearMonth_of h t1 = yearMonth_of h t2 \<longleftrightarrow>
           getFullYear h t1 = getFullYear h t2 \<and> getMonth h t1 = getMonth h t2"
    unfolding k1 k2 using len Yeq Meq by simp
qed

section \<open>Doubles\<close>

lemma round_half_even_int: "round_half_even (of_int j) = j"
  by (simp add: round_half_even_def)

lemma bitlen_positive:
  assumes "0 < n"
  shows "0 < bitlen n"
proof (rule ccontr)
  assume "\<not> 0 < bitlen n"
  then have "nat (bitlen n) = 0"
    by simp
  with bitlen_bounds [OF assms] have "n < 1"
    by simp
  with assms show False
    by simp
qed

lemma ilog2_int:
  assumes "0 < n"
  shows "ilog2 (of_int n) = bitlen n - 1"
proof -
  from bitlen_bounds [OF assms] have lo: "2 ^ nat (bitlen n - 1) \<le> n"
    by simp
  from bitlen_positive [OF assms] have nonneg: "0 \<le> bitlen n - 1"
    by simp
  have "(2::rat) ^ nat (bitlen n - 1) = of_int (2 ^ nat (bitlen n - 1))"
    by simp
  also have "\<dots> \<le> of_int n"
    using lo by (simp only: of_int_le_iff)
  finally have "pow2 (bitlen n - 1) \<le> of_int n"
    using nonneg by (simp add: pow2_def)
  moreover have "bitlen 1 = 1"
    by (simp add: bitlen_alt_def)
  ultimately show ?thesis
    by (simp add: ilog2_def Let_def)
qed

text \<open>An integer up to \<open>2^53\<close> in absolute value is a double: rounding leaves it as it is.\<close>

lemma round_double_int:
  assumes "\<bar>k\<bar> \<le> 2 ^ 53"
  shows "round_double (of_int k) = Finite (of_int k)"
proof (cases "k = 0")
  case True
  then show ?thesis
    by (simp add: round_double_def)
next
  case False
  define n where "n = \<bar>k\<bar>"
  define d where "d = bitlen n - 1"
  from False have pos: "0 < n"
    by (simp add: n_def)
  have a: "\<bar>of_int k :: rat\<bar> = of_int n"
    by (simp add: n_def)
  have e: "ilog2 (of_int n) = d"
    unfolding d_def using pos by (rule ilog2_int)
  from bitlen_bounds [OF pos] have lo: "2 ^ nat d \<le> n"
    by (simp add: d_def)
  from bitlen_positive [OF pos] have d0: "0 \<le> d"
    by (simp add: d_def)
  from lo assms have le: "(2::int) ^ nat d \<le> 2 ^ 53"
    by (simp add: n_def)
  have "nat d \<le> 53"
    by (rule power_le_imp_le_exp [of "2::int"]) (use le in simp_all)
  with d0 have d53: "d \<le> 53"
    by simp
  have sign: "(if (of_int k :: rat) < 0 then - 1 else 1) * (of_int n :: rat) = of_int k"
    by (simp add: n_def)
  have m: "of_int (round_half_even (of_int n / pow2 (d - 52))) * pow2 (d - 52) = (of_int n :: rat)
           \<and> \<not> (d = 1023 \<and> round_half_even (of_int n / pow2 (d - 52)) = 2 ^ 53)"
  proof (cases "d \<le> 52")
    case True
    then have p: "pow2 (d - 52) = 1 / 2 ^ nat (52 - d)"
      by (cases "d = 52") (simp_all add: pow2_def)
    have "of_int n / pow2 (d - 52) = (of_int (n * 2 ^ nat (52 - d)) :: rat)"
      by (simp add: p)
    then have "round_half_even (of_int n / pow2 (d - 52)) = n * 2 ^ nat (52 - d)"
      by (simp only: round_half_even_int)
    with True show ?thesis
      by (simp add: p)
  next
    case False
    with d53 have d: "d = 53"
      by simp
    with lo assms have n: "n = 2 ^ 53"
      by (simp add: n_def)
    have "of_int n / pow2 (d - 52) = (of_int (2 ^ 52) :: rat)"
      by (simp add: d n pow2_def)
    then have "round_half_even (of_int n / pow2 (d - 52)) = 2 ^ 52"
      by (simp only: round_half_even_int)
    then show ?thesis
      by (simp add: d n pow2_def)
  qed
  from False have "(of_int k :: rat) \<noteq> 0"
    by simp
  then show ?thesis
    using m d0 d53 sign
    by (simp add: round_double_def a e Let_def max_def mult.assoc)
qed

lemma js_add_int:
  "\<bar>a + b\<bar> \<le> 2 ^ 53 \<Longrightarrow> js_add (Finite (of_int a)) (Finite (of_int b)) = Finite (of_int (a + b))"
  using round_double_int [of "a + b"] by simp

lemma round_double_not_NaN: "round_double x \<noteq> NaN"
  by (simp add: round_double_def Let_def)

section \<open>Reading an amount\<close>

text \<open>
  \<open>parseFloat\<close> gives NaN for the strings that do not start with a number, and for no
  other: a literal it has read rounds to a double or to an infinity.
\<close>

lemma parseFloat_NaN_iff: "parseFloat s = NaN \<longleftrightarrow> no_leading_number s"
proof (cases "unsigned_part s")
  case Nil
  then show ?thesis
    by (simp add: parseFloat_def no_leading_number_def leading_digits_def fraction_digits_def
        after_integer_def Let_def)
next
  case (Cons c T)
  show ?thesis
  proof (cases "is_digit c")
    case True
    with Cons show ?thesis
      by (simp add: parseFloat_def no_leading_number_def leading_digits_def Let_def
          round_double_not_NaN)
  next
    case False
    with Cons show ?thesis
      by (cases T)
        (auto simp: parseFloat_def no_leading_number_def leading_digits_def fraction_digits_def
          after_integer_def Let_def round_double_not_NaN)
  qed
qed

lemma isNaN_merged_amount:
  "isNaN (merged_amount body old) \<longleftrightarrow>
     (case body_amount body of None \<Rightarrow> amount old = Num NaN | Some a \<Rightarrow> no_leading_number a)"
  by (simp add: isNaN_def merged_amount_def to_number_def parseFloat_NaN_iff
      split: option.splits amount_value.splits)

section \<open>Deleting an expense\<close>

text \<open>
  Claim C10. Delete-by-id removes every record whose id is the given one (all of them when
  the id occurs more than once) and keeps the other records in their order; it answers
  NotFound exactly when no record has the id, and then it does not write the file.
\<close>

theorem delete_by_id:
  "persisted stored (snd (delete_handler rid stored)) = filter (\<lambda>e. id' e \<noteq> rid) stored
   \<and> (fst (delete_handler rid stored) = Inl NotFound \<longleftrightarrow> rid \<notin> id' ` set stored)
   \<and> (fst (delete_handler rid stored) = Inr () \<longleftrightarrow> rid \<in> id' ` set stored)
   \<and> (snd (delete_handler rid stored) = None \<longleftrightarrow> rid \<notin> id' ` set stored)"
proof (cases "rid \<in> id' ` set stored")
  case True
  then have "length (filter (\<lambda>e. id' e \<noteq> rid) stored) < length stored"
    unfolding filter_shorter by auto
  with True show ?thesis
    by (simp add: delete_handler_def persisted_def)
next
  case False
  then have all: "\<forall>e \<in> set stored. id' e \<noteq> rid"
    by auto
  then have "\<not> length (filter (\<lambda>e. id' e \<noteq> rid) stored) < length stored"
    by simp
  moreover from all have "filter (\<lambda>e. id' e \<noteq> rid) stored = stored"
    by simp
  ultimately show ?thesis
    using False by (simp add: delete_handler_def persisted_def)
qed

section \<open>Modifying an expense\<close>

text \<open>
  Claim C9, as the specification states it: an update whose merged amount is not a valid
  number fails with InvalidRequest and leaves the stored collection as it was. A valid
  amount is a finite number; the handler tests the merged amount with \<open>isNaN\<close> only. With
  the amount \<open>Infinity\<close> in the request the merged amount is not finite, the update
  succeeds and the collection is rewritten with the new record.
\<close>

theorem put_infinite_amount:
  "findIndex (\<lambda>e. id' e = ''2'') example_expenses = Some 1
   \<and> merged_amount (amount_only ''Infinity'') (example_expenses ! 1) = Num PosInf
   \<and> \<not> spec_valid_number (Num PosInf)
   \<and> put_handler ''2'' (amount_only ''Infinity'') example_expenses
       = (Inr (coffee_feb \<lparr> amount := Num PosInf \<rparr>),
          Some [coffee_jan, coffee_feb \<lparr> amount := Num PosInf \<rparr>, snack_mar])
   \<and> persisted example_expenses (snd (put_handler ''2'' (amount_only ''Infinity'') example_expenses))
       \<noteq> example_expenses"
  by code_simp

text \<open>
  Claim C9, amended. For a request that names an existing id, the update fails with
  InvalidRequest exactly when the merged amount is NaN: the request carries an amount in
  which \<open>parseFloat\<close> finds no number (after the leading white space and one optional sign
  comes neither \<open>Infinity\<close> nor a digit nor a point followed by a digit), or it carries none
  and the stored amount is NaN (which a stored amount never is). The failed update writes
  nothing: the stored collection is what it was. Every other update, also one with an
  infinite amount, answers with the merged record and writes the collection with that
  record in the place of the old one.
\<close>

theorem put_rejects_iff:
  assumes "findIndex (\<lambda>e. id' e = rid) stored = Some index"
  shows "(fst (put_handler rid body stored) = Inl InvalidRequest \<longleftrightarrow>
            (case body_amount body of
               None \<Rightarrow> amount (stored ! index) = Num NaN
             | Some a \<Rightarrow> no_leading_number a))
         \<and> (fst (put_handler rid body stored) = Inl InvalidRequest \<longrightarrow>
              snd (put_handler rid body stored) = None
              \<and> persisted stored (snd (put_handler rid body stored)) = stored)
         \<and> (fst (put_handler rid body stored) \<noteq> Inl InvalidRequest \<longrightarrow>
              (\<exists>updated. put_handler rid body stored = (Inr updated, Some (stored[index := updated]))
                 \<and> amount updated = merged_amount body (stored ! index)
                 \<and> id' updated = rid))"
proof (cases "isNaN (merged_amount body (stored ! index))")
  case True
  with assms have "put_handler rid body stored = (Inl InvalidRequest, None)"
    by (simp add: put_handler_def Let_def)
  with True show ?thesis
    by (simp add: isNaN_merged_amount persisted_def)
next
  case False
  from findIndex_Some [OF assms] have "id' (stored ! index) = rid"
    by simp
  with False assms show ?thesis
    by (simp add: put_handler_def Let_def flip: isNaN_merged_amount)
qed

theorem put_rejects_iff_witness:
  "findIndex (\<lambda>e. id' e = ''2'') example_expenses = Some 1
   \<and> no_leading_number ''abc''
   \<and> put_handler ''2'' (amount_only ''abc'') example_expenses = (Inl InvalidRequest, None)
   \<and> persisted example_expenses (snd (put_handler ''2'' (amount_only ''abc'') example_expenses))
       = example_expenses
   \<and> \<not> no_leading_number ''12.5''
   \<and> fst (put_handler ''2'' (amount_only ''12.5'') example_expenses) \<noteq> Inl InvalidRequest"
proof -
  have found: "findIndex (\<lambda>e. id' e = ''2'') example_expenses = Some 1"
    by code_simp
  have no: "no_leading_number ''abc''" and yes: "\<not> no_leading_number ''12.5''"
    by code_simp+
  have body: "body_amount (amount_only a) = Some a" for a
    by (simp add: amount_only_def)
  from put_rejects_iff [OF found, of "amount_only ''abc''"]
    put_rejects_iff [OF found, of "amount_only ''12.5''"] found no yes
  show ?thesis
    by (cases "put_handler ''2'' (amount_only ''abc'') example_expenses") (simp add: body)
qed

section \<open>Comparing two months\<close>

text \<open>
  Claim C8. The comparison fails, with InvalidRequest, exactly when one of the two month
  parameters is missing or empty; with two non-empty parameters it answers, whatever the
  stored expenses are.
\<close>

theorem compare_invalid_iff:
  "(compare_handler h q1 q2 stored = Inl InvalidRequest
      \<longleftrightarrow> q1 = None \<or> q1 = Some [] \<or> q2 = None \<or> q2 = Some [])
   \<and> (isl (compare_handler h q1 q2 stored)
      \<longleftrightarrow> q1 = None \<or> q1 = Some [] \<or> q2 = None \<or> q2 = Some [])"
  by (auto simp: compare_handler_def truthy_def split: option.splits)

theorem compare_invalid_iff_witness:
  "compare_handler utc_host (Some ''2024-01'') None example_expenses = Inl InvalidRequest
   \<and> compare_handler utc_host (Some []) (Some ''2024-09'') example_expenses = Inl InvalidRequest
   \<and> \<not> isl (compare_handler utc_host (Some ''2024-01'') (Some ''2024-09'') example_expenses)"
  using compare_invalid_iff [of utc_host "Some ''2024-01''" None example_expenses]
    compare_invalid_iff [of utc_host "Some []" "Some ''2024-09''" example_expenses]
    compare_invalid_iff [of utc_host "Some ''2024-01''" "Some ''2024-09''" example_expenses]
  by simp

text \<open>
  Claim C5. For two non-empty month keys, the answer of the comparison has exactly the
  requested keys, two of them or one when they are equal, and a requested month in which
  no expense falls has total 0, no category and no detail. A month key is a string
  \<open>YYYY-MM\<close>; the statement holds for every non-empty string but the reserved property name
  \<open>__proto__\<close> (see \<open>compare_reserved_name\<close>).
\<close>

theorem compare_keys:
  assumes "m1 \<noteq> []" and "m2 \<noteq> []" and "m1 \<noteq> ''__proto__''" and "m2 \<noteq> ''__proto__''"
  shows "\<exists>cd. compare_handler h (Some m1) (Some m2) stored = Inr cd
           \<and> set (obj_keys cd) = {m1, m2}
           \<and> distinct (obj_keys cd)
           \<and> length (obj_keys cd) = (if m1 = m2 then 1 else 2)
           \<and> (\<forall>m \<in> {m1, m2}. m \<notin> yearMonth h ` date ` set stored \<longrightarrow>
                 obj_get cd m = Some \<lparr> total' = Finite 0, categories = [], details = [] \<rparr>)"
proof -
  let ?cd = "comparisonData h m1 m2 stored"
  have keys: "map fst ?cd = (if m1 = m2 then [m1] else [m1, m2])"
    using assms(3,4) by (rule keys_comparisonData)
  have "compare_handler h (Some m1) (Some m2) stored = Inr ?cd"
    using assms(1,2) by (simp add: compare_handler_def truthy_def or_else_def)
  moreover have "set (obj_keys ?cd) = {m1, m2}"
    using keys by (simp add: set_obj_keys flip: set_map)
  moreover have "distinct (obj_keys ?cd)"
    using keys by (simp add: distinct_obj_keys)
  moreover have "length (obj_keys ?cd) = (if m1 = m2 then 1 else 2)"
    using arg_cong [OF keys, of length] by (simp add: length_obj_keys)
  moreover have "\<forall>m \<in> {m1, m2}. m \<notin> yearMonth h ` date ` set stored \<longrightarrow>
      obj_get ?cd m = Some \<lparr> total' = Finite 0, categories = [], details = [] \<rparr>"
    using empty_month_comparisonData [OF assms(3,4)] by blast
  ultimately show ?thesis
    by blast
qed

theorem compare_keys_witness:
  "\<exists>cd. compare_handler utc_host (Some ''2024-01'') (Some ''2024-09'') example_expenses = Inr cd
        \<and> set (obj_keys cd) = {''2024-01'', ''2024-09''}
        \<and> length (obj_keys cd) = 2
        \<and> obj_get cd ''2024-09'' = Some \<lparr> total' = Finite 0, categories = [], details = [] \<rparr>"
proof -
  have "yearMonth utc_host ` date ` set example_expenses
        = set (map (\<lambda>e. yearMonth utc_host (date e)) example_expenses)"
    by auto
  then have absent: "''2024-09'' \<notin> yearMonth utc_host ` date ` set example_expenses"
    unfolding example_months by simp
  from compare_keys [of "''2024-01''" "''2024-09''" utc_host example_expenses] absent
  show ?thesis
    by auto
qed

section \<open>The window parameter\<close>

text \<open>
  Claim C3, as the specification states it: the recurring and the tags handler reject the
  \<open>months\<close> parameter exactly when it is not a positive-integer string. The handlers read
  the parameter with \<open>parseInt\<close>, which stops at the first character that is not a digit:
  \<open>2.5\<close> is not a positive-integer string and is accepted, as 2.
\<close>

theorem months_fraction_accepted:
  "\<not> spec_positive_integer_string ''2.5''
   \<and> recurring_handler utc_host march_2024 (Some ''2.5'') example_expenses
       = Inr (recurringExpenses utc_host march_2024 2 example_expenses)
   \<and> tags_handler utc_host march_2024 (Some ''2.5'') example_expenses
       = Inr (uniqueTags utc_host march_2024 2 example_expenses)"
proof -
  have "numMonths_of (Some ''2.5'') dflt = Inr 2" for dflt
    by (simp add: numMonths_of_def parseInt10_def leading_digits_def minus_first_def
        unsigned_part_def or_else_def is_space_def is_digit_def digits_value_def digit_val_def)
  then show ?thesis
    by (simp add: recurring_handler_def tags_handler_def spec_positive_integer_string_def
        is_digit_def)
qed

text \<open>
  Claim C3, amended. Each handler takes the parameter, or its default (\<open>3\<close> for the recurring
  report, \<open>2\<close> for the tags) when the parameter is missing or empty, and answers
  InvalidRequest exactly when, after the leading white space and one optional sign, the
  string does not start with a digit, or the sign is a minus, or the leading digits are
  all 0. What follows the leading digits is ignored. Every positive-integer string is
  accepted, with its value as the window.
\<close>

theorem months_rejected_iff:
  "(recurring_handler h now q stored = Inl InvalidRequest
      \<longleftrightarrow> no_positive_leading_integer (or_else q ''3''))
   \<and> (tags_handler h now q stored = Inl InvalidRequest
      \<longleftrightarrow> no_positive_leading_integer (or_else q ''2''))
   \<and> (spec_positive_integer_string s \<longrightarrow>
        recurring_handler h now (Some s) stored
          = Inr (recurringExpenses h now (int (digits_value s)) stored)
        \<and> tags_handler h now (Some s) stored
          = Inr (uniqueTags h now (int (digits_value s)) stored))"
  by (simp add: handlers_reject numMonths_of_rejects)
     (simp add: recurring_handler_def tags_handler_def numMonths_of_accepts)

theorem months_rejected_iff_witness:
  "recurring_handler utc_host march_2024 (Some ''abc'') example_expenses = Inl InvalidRequest
   \<and> tags_handler utc_host march_2024 (Some ''0'') example_expenses = Inl InvalidRequest
   \<and> tags_handler utc_host march_2024 (Some ''-3'') example_expenses = Inl InvalidRequest
   \<and> recurring_handler utc_host march_2024 None example_expenses \<noteq> Inl InvalidRequest
   \<and> spec_positive_integer_string ''3''
   \<and> recurring_handler utc_host march_2024 (Some ''3'') example_expenses
       = Inr (recurringExpenses utc_host march_2024 3 example_expenses)"
proof -
  have pos: "spec_positive_integer_string ''3''" and val: "digits_value ''3'' = 3"
    by (simp_all add: spec_positive_integer_string_def is_digit_def digits_value_def digit_val_def)
  have rej: "no_positive_leading_integer ''abc''" "no_positive_leading_integer ''0''"
    "no_positive_leading_integer ''-3''" "\<not> no_positive_leading_integer ''3''"
    by (simp_all add: no_positive_leading_integer_def leading_digits_def minus_first_def
        unsigned_part_def is_space_def is_digit_def)
  from months_rejected_iff [of utc_host march_2024 "Some ''abc''" example_expenses "''3''"]
    months_rejected_iff [of utc_host march_2024 "Some ''0''" example_expenses "''3''"]
    months_rejected_iff [of utc_host march_2024 "Some ''-3''" example_expenses "''3''"]
    months_rejected_iff [of utc_host march_2024 None example_expenses "''3''"]
    pos val rej
  show ?thesis
    by (simp add: or_else_def)
qed

section \<open>Sums of integers in doubles\<close>

lemma number_int_of_int: "number_int (Finite (of_int k)) = k"
  by (simp add: number_int_def)

lemma is_integer_of_int: "is_integer (Finite (of_int k))"
  by (simp add: is_integer_def number_int_of_int)

lemma is_integer_zero: "is_integer (Finite 0)" "number_int (Finite 0) = 0"
  using is_integer_of_int [of 0] number_int_of_int [of 0] by simp_all

lemma js_add_integers:
  assumes "is_integer m" and "is_integer n" and "\<bar>number_int m\<bar> + \<bar>number_int n\<bar> \<le> 2 ^ 53"
  shows "js_add m n = Finite (of_int (number_int m + number_int n))"
proof -
  from assms(1,2) have m: "m = Finite (of_int (number_int m))"
    and n: "n = Finite (of_int (number_int n))"
    by (simp_all only: is_integer_def)
  from assms(3) have "\<bar>number_int m + number_int n\<bar> \<le> 2 ^ 53"
    by linarith
  then have "js_add (Finite (of_int (number_int m))) (Finite (of_int (number_int n)))
             = Finite (of_int (number_int m + number_int n))"
    by (rule js_add_int)
  with m n show ?thesis
    by simp
qed

lemma foldl_js_add_integers:
  assumes "\<forall>n \<in> set ns. is_integer n"
    and "\<bar>a\<bar> + (\<Sum>n \<leftarrow> ns. \<bar>number_int n\<bar>) \<le> 2 ^ 53"
  shows "foldl js_add (Finite (of_int a)) ns = Finite (of_int (a + (\<Sum>n \<leftarrow> ns. number_int n)))"
  using assms
proof (induction ns arbitrary: a)
  case Nil
  then show ?case by simp
next
  case (Cons n ns)
  have nonneg: "0 \<le> (\<Sum>n \<leftarrow> ns. \<bar>number_int n\<bar>)"
    by (rule sum_list_nonneg) auto
  from Cons.prems have n: "is_integer n" and rest: "\<forall>n \<in> set ns. is_integer n"
    by simp_all
  from Cons.prems(2) nonneg have small: "\<bar>a\<bar> + \<bar>number_int n\<bar> \<le> 2 ^ 53"
    by simp
  have step: "js_add (Finite (of_int a)) n = Finite (of_int (a + number_int n))"
    using js_add_integers [OF is_integer_of_int n, of a] small
    by (simp add: number_int_of_int)
  from Cons.prems(2) have "\<bar>a + number_int n\<bar> + (\<Sum>n \<leftarrow> ns. \<bar>number_int n\<bar>) \<le> 2 ^ 53"
    by simp
  from Cons.IH [OF rest this] step show ?case
    by (simp add: add.assoc)
qed

lemma js_sum_integers:
  assumes "\<forall>n \<in> set ns. is_integer n" and "(\<Sum>n \<leftarrow> ns. \<bar>number_int n\<bar>) \<le> 2 ^ 53"
  shows "js_sum ns = Finite (of_int (\<Sum>n \<leftarrow> ns. number_int n))"
  using foldl_js_add_integers [of ns 0] assms by (simp add: js_sum_def)

lemma sum_list_mset_cong:
  "mset xs = mset ys \<Longrightarrow> sum_list (map f xs) = sum_list (map (f :: 'a \<Rightarrow> int) ys)"
proof -
  assume "mset xs = mset ys"
  then have "mset (map f xs) = mset (map f ys)"
    by simp
  then show ?thesis
    by (metis sum_mset_sum_list)
qed

text \<open>In another order the same integers give the same sum.\<close>

lemma js_sum_integers_any_order:
  assumes "mset ts = mset ns"
    and "\<forall>n \<in> set ns. is_integer n" and "(\<Sum>n \<leftarrow> ns. \<bar>number_int n\<bar>) \<le> 2 ^ 53"
  shows "js_sum ts = Finite (of_int (\<Sum>n \<leftarrow> ns. number_int n))"
proof -
  from assms(1) have "set ts = set ns"
    by (rule mset_eq_setD)
  with assms(2) have ints: "\<forall>n \<in> set ts. is_integer n"
    by simp
  have "(\<Sum>n \<leftarrow> ts. \<bar>number_int n\<bar>) = (\<Sum>n \<leftarrow> ns. \<bar>number_int n\<bar>)"
    and eq: "(\<Sum>n \<leftarrow> ts. number_int n) = (\<Sum>n \<leftarrow> ns. number_int n)"
    using assms(1) by (rule sum_list_mset_cong)+
  with assms(3) have "(\<Sum>n \<leftarrow> ts. \<bar>number_int n\<bar>) \<le> 2 ^ 53"
    by simp
  from js_sum_integers [OF ints this] eq show ?thesis
    by simp
qed

section \<open>The totals of the monthly report\<close>

lemma sum_update:
  "distinct (map fst al) \<Longrightarrow>
   sum_list (map (\<lambda>p. g (snd p)) (AList.update k v al)) =
     sum_list (map (\<lambda>p. g (snd p)) al) - (case map_of al k of None \<Rightarrow> 0 | Some b \<Rightarrow> g b) + (g v :: int)"
proof (induction al)
  case Nil
  then show ?case by simp
next
  case (Cons p al)
  obtain k' b' where p: "p = (k', b')"
    by (cases p)
  show ?case
  proof (cases "k' = k")
    case True
    with Cons.prems p show ?thesis
      by simp
  next
    case False
    with Cons p show ?thesis
      by simp
  qed
qed

lemma set_update: "set (AList.update k v al) \<subseteq> insert (k, v) (set al)"
  by (induction al) auto

lemma entry_le_abs_sum:
  "(k, b) \<in> set al \<Longrightarrow> \<bar>g b\<bar> \<le> sum_list (map (\<lambda>p. \<bar>g (snd p) :: int\<bar>) al)"
proof (induction al)
  case Nil
  then show ?case by simp
next
  case (Cons p al)
  have nonneg: "0 \<le> sum_list (map (\<lambda>p. \<bar>g (snd p)\<bar>) al)"
    by (rule sum_list_nonneg) auto
  from Cons show ?case
  proof (cases "(k, b) = p")
    case True
    with nonneg show ?thesis
      by auto
  next
    case False
    with Cons have "\<bar>g b\<bar> \<le> sum_list (map (\<lambda>p. \<bar>g (snd p)\<bar>) al)"
      by simp
    then show ?thesis
      by simp
  qed
qed

lemma monthly_step_integers:
  assumes d: "distinct (map fst r)"
    and ints: "\<forall>p \<in> set r. is_integer (total' (snd p))"
    and amt: "is_integer (to_number (amount e))"
    and bound: "(\<Sum>p \<leftarrow> r. \<bar>number_int (total' (snd p))\<bar>) + \<bar>number_int (to_number (amount e))\<bar> \<le> 2 ^ 53"
  shows "(\<forall>p \<in> set (monthly_step h e r). is_integer (total' (snd p)))
         \<and> (\<Sum>p \<leftarrow> monthly_step h e r. \<bar>number_int (total' (snd p))\<bar>)
             \<le> (\<Sum>p \<leftarrow> r. \<bar>number_int (total' (snd p))\<bar>) + \<bar>number_int (to_number (amount e))\<bar>
         \<and> (\<Sum>p \<leftarrow> monthly_step h e r. number_int (total' (snd p)))
             = (\<Sum>p \<leftarrow> r. number_int (total' (snd p))) + number_int (to_number (amount e))"
proof -
  let ?ym = "yearMonth h (date e)"
  let ?z = "\<lparr> total' = Finite 0, categories = [] \<rparr>"
  let ?r1 = "if obj_get r ?ym = None then obj_set r ?ym ?z else r"
  let ?k = "number_int (to_number (amount e))"
  let ?g = "\<lambda>b. number_int (total' b)"
  let ?a = "\<lambda>b. \<bar>number_int (total' b)\<bar>"
  have d1: "distinct (map fst ?r1)"
    using d by (simp add: distinct_obj_set)
  have sub1: "set ?r1 \<subseteq> insert (?ym, ?z) (set r)"
    using set_update [of ?ym ?z r] by (auto simp: obj_set_def yearMonth_not_reserved)
  have ints1: "\<forall>p \<in> set ?r1. is_integer (total' (snd p))"
  proof
    fix p
    assume "p \<in> set ?r1"
    with sub1 have "p = (?ym, ?z) \<or> p \<in> set r"
      by blast
    with ints show "is_integer (total' (snd p))"
      by (auto simp: is_integer_zero)
  qed
  have s1: "(\<Sum>p \<leftarrow> ?r1. ?g (snd p)) = (\<Sum>p \<leftarrow> r. ?g (snd p))"
    using sum_update [OF d, of ?g ?ym ?z]
    by (simp add: obj_set_def obj_get_def yearMonth_not_reserved is_integer_zero)
  have a1: "(\<Sum>p \<leftarrow> ?r1. ?a (snd p)) = (\<Sum>p \<leftarrow> r. ?a (snd p))"
    using sum_update [OF d, of ?a ?ym ?z]
    by (simp add: obj_set_def obj_get_def yearMonth_not_reserved is_integer_zero)
  obtain b where b: "obj_get ?r1 ?ym = Some b"
    by (cases "obj_get r ?ym") (auto simp: obj_get_set yearMonth_not_reserved)
  then have mem: "(?ym, b) \<in> set ?r1"
    unfolding obj_get_def by (rule map_of_SomeD)
  with ints1 have tb: "is_integer (total' b)"
    by fastforce
  from entry_le_abs_sum [OF mem, of ?g] a1
  have small: "\<bar>?g b\<bar> \<le> (\<Sum>p \<leftarrow> r. ?a (snd p))"
    by simp
  with bound have "\<bar>number_int (total' b)\<bar> + \<bar>?k\<bar> \<le> 2 ^ 53"
    by simp
  from js_add_integers [OF tb amt this]
  have new: "js_add (total' b) (to_number (amount e)) = Finite (of_int (?g b + ?k))" .
  let ?b' = "b \<lparr> total' := js_add (total' b) (to_number (amount e)),
                 categories := add_category (categories b) (category e) (amount e) \<rparr>"
  have tb': "total' ?b' = Finite (of_int (?g b + ?k))"
    using new by simp
  have step: "monthly_step h e r = AList.update ?ym ?b' ?r1"
    using b by (simp add: monthly_step_def Let_def obj_modify_def obj_set_def yearMonth_not_reserved)
  have mo: "map_of ?r1 ?ym = Some b"
    using b by (simp add: obj_get_def)
  have "\<forall>p \<in> set (monthly_step h e r). is_integer (total' (snd p))"
  proof
    fix p
    assume "p \<in> set (monthly_step h e r)"
    with set_update [of ?ym ?b' ?r1] have "p = (?ym, ?b') \<or> p \<in> set ?r1"
      unfolding step by blast
    then show "is_integer (total' (snd p))"
    proof
      assume "p = (?ym, ?b')"
      then have "total' (snd p) = Finite (of_int (?g b + ?k))"
        using tb' by simp
      then show ?thesis
        by (simp only: is_integer_of_int)
    next
      assume "p \<in> set ?r1"
      with ints1 show ?thesis
        by blast
    qed
  qed
  moreover have "(\<Sum>p \<leftarrow> monthly_step h e r. ?g (snd p)) = (\<Sum>p \<leftarrow> r. ?g (snd p)) + ?k"
  proof -
    have "?g ?b' = ?g b + ?k"
      unfolding tb' by (rule number_int_of_int)
    with sum_update [OF d1, of ?g ?ym ?b'] mo s1 show ?thesis
      unfolding step by simp
  qed
  moreover have "(\<Sum>p \<leftarrow> monthly_step h e r. ?a (snd p)) \<le> (\<Sum>p \<leftarrow> r. ?a (snd p)) + \<bar>?k\<bar>"
  proof -
    have "?a ?b' = \<bar>?g b + ?k\<bar>"
      unfolding tb' by (simp only: number_int_of_int)
    then have "?a ?b' \<le> ?a b + \<bar>?k\<bar>"
      by simp
    with sum_update [OF d1, of ?a ?ym ?b'] mo a1 show ?thesis
      unfolding step by simp
  qed
  ultimately show ?thesis
    by blast
qed

lemma monthly_fold_integers:
  assumes "distinct (map fst r)"
    and "\<forall>p \<in> set r. is_integer (total' (snd p))"
    and "\<forall>e \<in> set es. is_integer (to_number (amount e))"
    and "(\<Sum>p \<leftarrow> r. \<bar>number_int (total' (snd p))\<bar>)
         + (\<Sum>e \<leftarrow> es. \<bar>number_int (to_number (amount e))\<bar>) \<le> 2 ^ 53"
  shows "(\<forall>p \<in> set (fold (monthly_step h) es r). is_integer (total' (snd p)))
         \<and> (\<Sum>p \<leftarrow> fold (monthly_step h) es r. \<bar>number_int (total' (snd p))\<bar>)
             \<le> (\<Sum>p \<leftarrow> r. \<bar>number_int (total' (snd p))\<bar>)
                + (\<Sum>e \<leftarrow> es. \<bar>number_int (to_number (amount e))\<bar>)
         \<and> (\<Sum>p \<leftarrow> fold (monthly_step h) es r. number_int (total' (snd p)))
             = (\<Sum>p \<leftarrow> r. number_int (total' (snd p)))
               + (\<Sum>e \<leftarrow> es. number_int (to_number (amount e)))"
  using assms
proof (induction es arbitrary: r)
  case Nil
  then show ?case by simp
next
  case (Cons e es)
  let ?r' = "monthly_step h e r"
  have nonneg: "0 \<le> (\<Sum>e \<leftarrow> es. \<bar>number_int (to_number (amount e))\<bar>)"
    by (rule sum_list_nonneg) auto
  from Cons.prems(3) have amt: "is_integer (to_number (amount e))"
    and rest: "\<forall>e \<in> set es. is_integer (to_number (amount e))"
    by simp_all
  from Cons.prems(4) nonneg
  have bound: "(\<Sum>p \<leftarrow> r. \<bar>number_int (total' (snd p))\<bar>) + \<bar>number_int (to_number (amount e))\<bar> \<le> 2 ^ 53"
    by simp
  from monthly_step_integers [OF Cons.prems(1,2) amt bound, of h]
  have ints: "\<forall>p \<in> set ?r'. is_integer (total' (snd p))"
    and abs: "(\<Sum>p \<leftarrow> ?r'. \<bar>number_int (total' (snd p))\<bar>)
              \<le> (\<Sum>p \<leftarrow> r. \<bar>number_int (total' (snd p))\<bar>) + \<bar>number_int (to_number (amount e))\<bar>"
    and sum: "(\<Sum>p \<leftarrow> ?r'. number_int (total' (snd p)))
              = (\<Sum>p \<leftarrow> r. number_int (total' (snd p))) + number_int (to_number (amount e))"
    by blast+
  from Cons.prems(1) have d: "distinct (map fst ?r')"
    by (rule distinct_monthly_step)
  from abs Cons.prems(4)
  have "(\<Sum>p \<leftarrow> ?r'. \<bar>number_int (total' (snd p))\<bar>)
        + (\<Sum>e \<leftarrow> es. \<bar>number_int (to_number (amount e))\<bar>) \<le> 2 ^ 53"
    by simp
  from Cons.IH [OF d ints rest this] abs sum show ?case
    by simp
qed

lemma monthlyReport_integers:
  assumes "\<forall>e \<in> set es. is_integer (to_number (amount e))"
    and "(\<Sum>e \<leftarrow> es. \<bar>number_int (to_number (amount e))\<bar>) \<le> 2 ^ 53"
  shows "\<forall>n \<in> set (map total' (map snd (monthlyReport h es))). is_integer n"
    and "(\<Sum>n \<leftarrow> map total' (map snd (monthlyReport h es)). \<bar>number_int n\<bar>) \<le> 2 ^ 53"
    and "(\<Sum>n \<leftarrow> map total' (map snd (monthlyReport h es)). number_int n)
         = (\<Sum>e \<leftarrow> es. number_int (to_number (amount e)))"
proof -
  from monthly_fold_integers [of "[]" es h] assms
  have ints: "\<forall>p \<in> set (monthlyReport h es). is_integer (total' (snd p))"
    and abs: "(\<Sum>p \<leftarrow> monthlyReport h es. \<bar>number_int (total' (snd p))\<bar>)
              \<le> (\<Sum>e \<leftarrow> es. \<bar>number_int (to_number (amount e))\<bar>)"
    and sum: "(\<Sum>p \<leftarrow> monthlyReport h es. number_int (total' (snd p)))
              = (\<Sum>e \<leftarrow> es. number_int (to_number (amount e)))"
    by (simp_all add: monthlyReport_def)
  from ints show "\<forall>n \<in> set (map total' (map snd (monthlyReport h es))). is_integer n"
    by simp
  from abs assms(2)
  show "(\<Sum>n \<leftarrow> map total' (map snd (monthlyReport h es)). \<bar>number_int n\<bar>) \<le> 2 ^ 53"
    by (simp add: comp_def)
  from sum show "(\<Sum>n \<leftarrow> map total' (map snd (monthlyReport h es)). number_int n)
         = (\<Sum>e \<leftarrow> es. number_int (to_number (amount e)))"
    by (simp add: comp_def)
qed

text \<open>The sorted report holds the buckets of the loop, in another order.\<close>

lemma values_monthly_handler:
  "mset (obj_values (monthly_handler h es)) = mset (map snd (monthlyReport h es))"
proof -
  let ?r = "monthlyReport h es"
  have eq: "monthly_handler h es = map (\<lambda>k. (k, the (obj_get ?r k))) (sort (map fst ?r))"
    unfolding monthly_handler_def by (rule sortedReport_eq) (rule monthlyReport_invariant)+
  have "mset (obj_values (monthly_handler h es)) = mset (map snd (monthly_handler h es))"
    by (simp add: obj_values_def obj_entries_mset)
  also have "\<dots> = mset (map (\<lambda>k. the (obj_get ?r k)) (sort (map fst ?r)))"
    unfolding eq by (simp add: comp_def)
  also have "\<dots> = mset (map (\<lambda>k. the (obj_get ?r k)) (map fst ?r))"
    by (simp only: mset_map mset_sort)
  also have "map (\<lambda>k. the (obj_get ?r k)) (map fst ?r) = map snd ?r"
  proof -
    have "the (obj_get ?r (fst p)) = snd p" if "p \<in> set ?r" for p
    proof -
      from that have "(fst p, snd p) \<in> set ?r"
        by simp
      with monthlyReport_invariant(1) [of h es] have "map_of ?r (fst p) = Some (snd p)"
        by (rule map_of_is_SomeI)
      then show ?thesis
        by (simp add: obj_get_def)
    qed
    then show ?thesis
      by simp
  qed
  finally show ?thesis .
qed

section \<open>The monthly report\<close>

text \<open>
  Claim C2, as the specification states it: for expenses whose dates are all valid, the
  totals of the months of the monthly report add up to the sum of the amounts. The handler
  adds doubles, and every addition rounds. For the amounts 0.1 and 0.2 in January and 19.99
  and 12.49 in February (the doubles nearest to these decimals) the totals of the two
  months are 0.30000000000000004 and 32.48; they add up to 32.779999999999994, and the four
  amounts add up to 32.78. The sum of the four amounts without any rounding is a third
  value, which is not a double.
\<close>

theorem monthly_totals_rounding:
  "list_all (\<lambda>e. parseDate utc_host (date e) \<noteq> None) rounding_expenses
   \<and> map (\<lambda>e. to_number (amount e)) rounding_expenses
       = [Finite (3602879701896397 / 36028797018963968),
          Finite (3602879701896397 / 18014398509481984),
          Finite (5626684784446013 / 281474976710656),
          Finite (7031244918232187 / 562949953421312)]
   \<and> map total' (obj_values (monthly_handler utc_host rounding_expenses))
       = [Finite (1351079888211149 / 4503599627370496),
          Finite (4571153621781053 / 140737488355328)]
   \<and> js_sum (map total' (obj_values (monthly_handler utc_host rounding_expenses)))
       = Finite (4613374868287651 / 140737488355328)
   \<and> js_sum (map (\<lambda>e. to_number (amount e)) rounding_expenses)
       = Finite (1153343717071913 / 35184372088832)
   \<and> (\<Sum>e \<leftarrow> rounding_expenses. number_rat (to_number (amount e)))
       = 1181023966281638823 / 36028797018963968
   \<and> js_sum (map total' (obj_values (monthly_handler utc_host rounding_expenses)))
       \<noteq> js_sum (map (\<lambda>e. to_number (amount e)) rounding_expenses)
   \<and> js_sum (map total' (obj_values (monthly_handler utc_host rounding_expenses)))
       \<noteq> Finite (\<Sum>e \<leftarrow> rounding_expenses. number_rat (to_number (amount e)))"
proof -
  have each: "map (\<lambda>e. to_number (amount e)) rounding_expenses
              = [Finite (3602879701896397 / 36028797018963968),
                 Finite (3602879701896397 / 18014398509481984),
                 Finite (5626684784446013 / 281474976710656),
                 Finite (7031244918232187 / 562949953421312)]"
    by code_simp
  have months: "map total' (obj_values (monthly_handler utc_host rounding_expenses))
                = [Finite (1351079888211149 / 4503599627370496),
                   Finite (4571153621781053 / 140737488355328)]"
    by code_simp
  have exact: "(\<Sum>e \<leftarrow> rounding_expenses. number_rat (to_number (amount e)))
               = 1181023966281638823 / 36028797018963968"
    by code_simp
  have dates: "list_all (\<lambda>e. parseDate utc_host (date e) \<noteq> None) rounding_expenses"
    by code_simp
  have totals: "js_sum (map total' (obj_values (monthly_handler utc_host rounding_expenses)))
                = Finite (4613374868287651 / 140737488355328)"
    by code_simp
  have amounts: "js_sum (map (\<lambda>e. to_number (amount e)) rounding_expenses)
                 = Finite (1153343717071913 / 35184372088832)"
    by code_simp
  have different: "Finite (4613374868287651 / 140737488355328)
                     \<noteq> Finite (1153343717071913 / 35184372088832)"
    "Finite (4613374868287651 / 140737488355328)
       \<noteq> Finite (1181023966281638823 / 36028797018963968)"
    by simp_all
  from dates each months totals amounts exact different show ?thesis
    by (simp only: simp_thms)
qed

text \<open>
  Claim C2, amended. When every amount is an integer and the absolute values of the amounts
  add up to \<open>2^53\<close> at most, no addition rounds: the totals of the months of the monthly
  report, added up in any order, give the sum of the amounts, added up in any order, and
  that sum is the exact one. (An amount \<open>null\<close> counts as 0.) For other amounts the two
  sums agree up to the rounding of the additions only.
\<close>

theorem monthly_totals_sum_integers:
  assumes "\<forall>e \<in> set stored. is_integer (to_number (amount e))"
    and "(\<Sum>e \<leftarrow> stored. \<bar>number_int (to_number (amount e))\<bar>) \<le> 2 ^ 53"
    and "mset totals = mset (map total' (obj_values (monthly_handler h stored)))"
    and "mset amounts = mset (map (\<lambda>e. to_number (amount e)) stored)"
  shows "js_sum totals = js_sum amounts
         \<and> js_sum amounts = Finite (of_int (\<Sum>e \<leftarrow> stored. number_int (to_number (amount e))))"
proof -
  let ?ns = "map total' (map snd (monthlyReport h stored))"
  let ?as = "map (\<lambda>e. to_number (amount e)) stored"
  have "mset (map total' (obj_values (monthly_handler h stored))) = mset ?ns"
    by (simp only: mset_map values_monthly_handler)
  with assms(3) have "mset totals = mset ?ns"
    by (rule trans)
  from js_sum_integers_any_order [OF this monthlyReport_integers(1,2) [OF assms(1,2)]]
  have totals: "js_sum totals = Finite (of_int (\<Sum>e \<leftarrow> stored. number_int (to_number (amount e))))"
    by (simp only: monthlyReport_integers(3) [OF assms(1,2)])
  have ints: "\<forall>n \<in> set ?as. is_integer n"
    using assms(1) by simp
  have abs: "(\<Sum>n \<leftarrow> ?as. \<bar>number_int n\<bar>) \<le> 2 ^ 53"
    using assms(2) by (simp add: comp_def)
  from js_sum_integers_any_order [OF assms(4) ints abs]
  have "js_sum amounts = Finite (of_int (\<Sum>e \<leftarrow> stored. number_int (to_number (amount e))))"
    by (simp add: comp_def)
  with totals show ?thesis
    by simp
qed

lemma example_report:
  "monthly_handler utc_host example_expenses =
     [(''2024-01'', \<lparr> total' = Finite 10, categories = [(''Food'', Finite 10)] \<rparr>),
      (''2024-02'', \<lparr> total' = Finite 10, categories = [(''Food'', Finite 10)] \<rparr>),
      (''2024-03'', \<lparr> total' = Finite 5, categories = [(''Food'', Finite 5)] \<rparr>)]"
  by code_simp

lemma example_amounts:
  "map (\<lambda>e. to_number (amount e)) example_expenses = [Finite 10, Finite 10, Finite 5]"
  "map (\<lambda>e. number_int (to_number (amount e))) example_expenses = [10, 10, 5]"
  "list_all (\<lambda>e. is_integer (to_number (amount e))) example_expenses"
  "obj_values (monthly_handler utc_host example_expenses)
   = [\<lparr> total' = Finite 10, categories = [(''Food'', Finite 10)] \<rparr>,
      \<lparr> total' = Finite 10, categories = [(''Food'', Finite 10)] \<rparr>,
      \<lparr> total' = Finite 5, categories = [(''Food'', Finite 5)] \<rparr>]"
  by code_simp+

theorem monthly_totals_sum_integers_witness:
  "list_all (\<lambda>e. is_integer (to_number (amount e))) example_expenses
   \<and> (\<Sum>e \<leftarrow> example_expenses. \<bar>number_int (to_number (amount e))\<bar>) = 25
   \<and> js_sum [Finite 5, Finite 10, Finite 10] = js_sum [Finite 10, Finite 10, Finite 5]
   \<and> js_sum [Finite 10, Finite 10, Finite 5] = Finite 25"
proof -
  have ints: "\<forall>e \<in> set example_expenses. is_integer (to_number (amount e))"
    using example_amounts(3) by (simp add: list_all_iff)
  have ks: "(\<Sum>e \<leftarrow> example_expenses. number_int (to_number (amount e))) = 25"
    and abs: "(\<Sum>e \<leftarrow> example_expenses. \<bar>number_int (to_number (amount e))\<bar>) = 25"
    using arg_cong [OF example_amounts(2), of sum_list]
      arg_cong [OF example_amounts(2), of "\<lambda>ks. sum_list (map abs ks)"]
    by (simp_all add: comp_def)
  from abs have bound: "(\<Sum>e \<leftarrow> example_expenses. \<bar>number_int (to_number (amount e))\<bar>) \<le> 2 ^ 53"
    by simp
  have totals: "mset [Finite 5, Finite 10, Finite 10]
                = mset (map total' (obj_values (monthly_handler utc_host example_expenses)))"
    unfolding example_amounts(4) by simp
  have amounts: "mset [Finite 10, Finite 10, Finite 5]
                 = mset (map (\<lambda>e. to_number (amount e)) example_expenses)"
    unfolding example_amounts(1) by simp
  from monthly_totals_sum_integers [OF ints bound totals amounts] example_amounts(3) abs ks
  show ?thesis
    by simp
qed

section \<open>The order of the monthly report\<close>

text \<open>
  Claim C6. The keys of the monthly report come in ascending order of the strings (and no
  key comes twice). For two dates whose month keys have the form \<open>YYYY-MM\<close>, that is with
  a year of four digits, the order of the keys is the order of (year, month): the earlier
  month has the smaller key, and equal keys mean the same month of the same year.
\<close>

theorem monthly_keys_sorted:
  "sorted (obj_keys (monthly_handler h stored))
   \<and> distinct (obj_keys (monthly_handler h stored))
   \<and> (1000 \<le> getFullYear h t1 \<and> getFullYear h t1 \<le> 9999 \<and> getMonth h t1 < 12
      \<and> 1000 \<le> getFullYear h t2 \<and> getFullYear h t2 \<le> 9999 \<and> getMonth h t2 < 12
      \<longrightarrow> (yearMonth_of h t1 < yearMonth_of h t2 \<longleftrightarrow>
             getFullYear h t1 < getFullYear h t2
             \<or> getFullYear h t1 = getFullYear h t2 \<and> getMonth h t1 < getMonth h t2)
          \<and> (yearMonth_of h t1 = yearMonth_of h t2 \<longleftrightarrow>
             getFullYear h t1 = getFullYear h t2 \<and> getMonth h t1 = getMonth h t2))"
proof -
  have "sorted (obj_keys (monthly_handler h stored))"
    unfolding keys_monthly_handler by simp
  moreover have "distinct (obj_keys (monthly_handler h stored))"
    unfolding keys_monthly_handler using monthlyReport_invariant(1) [of h stored] by simp
  ultimately show ?thesis
    using yearMonth_of_less [of h t1 t2] by blast
qed

lemma example_key_order:
  "obj_keys (monthly_handler utc_host (rev example_expenses)) = [''2024-01'', ''2024-02'', ''2024-03'']"
  by code_simp

lemma example_years:
  "getFullYear utc_host 1704412800000 = 2024 \<and> getMonth utc_host 1704412800000 = 0
   \<and> getFullYear utc_host 1701388800000 = 2023 \<and> getMonth utc_host 1701388800000 = 11"
  by code_simp

theorem monthly_keys_sorted_witness:
  "sorted (obj_keys (monthly_handler utc_host (rev example_expenses)))
   \<and> obj_keys (monthly_handler utc_host (rev example_expenses)) = [''2024-01'', ''2024-02'', ''2024-03'']
   \<and> getFullYear utc_host 1701388800000 = 2023 \<and> getMonth utc_host 1701388800000 = 11
   \<and> getFullYear utc_host 1704412800000 = 2024 \<and> getMonth utc_host 1704412800000 = 0
   \<and> yearMonth_of utc_host 1701388800000 < yearMonth_of utc_host 1704412800000"
  using monthly_keys_sorted [of utc_host "rev example_expenses" 1701388800000 1704412800000]
    example_key_order example_years
  by simp


section \<open>Template keys and the occurrences\<close>

lemma bar_in_templateKey: "CHR ''|'' \<in> set (templateKey h e)"
  by (simp add: templateKey_def)

lemma templateKey_not_reserved: "templateKey h e \<noteq> ''__proto__''"
proof
  assume "templateKey h e = ''__proto__''"
  with bar_in_templateKey [of h e] show False
    by simp
qed

lemma templateKey_template_of: "templateKey h (template_of e) = templateKey h e"
  by (simp add: templateKey_def template_of_def)

lemma set_fold_set_add: "set (fold set_add ms acc) = set ms \<union> set acc"
  by (induction ms arbitrary: acc) (auto simp: set_add_def)

lemma distinct_fold_set_add: "distinct acc \<Longrightarrow> distinct (fold set_add ms acc)"
  by (induction ms arbitrary: acc) (auto simp: set_add_def)

lemma get_occurrence_step:
  "obj_get (occurrence_step h e occ) k =
     (if k = templateKey h e
      then Some (case obj_get occ k of
                   None \<Rightarrow> \<lparr> expense = template_of e, months = [yearMonth h (date e)] \<rparr>
                 | Some item \<Rightarrow> item \<lparr> months := set_add (yearMonth h (date e)) (months item) \<rparr>)
      else obj_get occ k)"
proof (cases "obj_get occ (templateKey h e)")
  case None
  then show ?thesis
    by (simp add: occurrence_step_def Let_def obj_modify_def obj_get_set templateKey_not_reserved
        set_add_def)
next
  case (Some item)
  then show ?thesis
    by (simp add: occurrence_step_def Let_def obj_modify_def obj_get_set templateKey_not_reserved)
qed

lemma distinct_occurrence_step:
  "distinct (map fst occ) \<Longrightarrow> distinct (map fst (occurrence_step h e occ))"
  by (simp add: occurrence_step_def Let_def keys_obj_modify distinct_obj_set)

lemma distinct_occurrence_fold:
  "distinct (map fst occ) \<Longrightarrow> distinct (map fst (fold (occurrence_step h) es occ))"
  by (induction es arbitrary: occ) (simp_all add: distinct_occurrence_step)

text \<open>
  The entry of a key after the loop: the template of the first expense with the key, and
  the months of all the expenses with the key.
\<close>

lemma get_occurrence_fold:
  "obj_get (fold (occurrence_step h) es occ) k =
     (case obj_get occ k of
        Some item \<Rightarrow>
          Some (item \<lparr> months :=
                  fold set_add (map (\<lambda>e. yearMonth h (date e)) [e \<leftarrow> es. templateKey h e = k])
                    (months item) \<rparr>)
      | None \<Rightarrow>
          (case find (\<lambda>e. templateKey h e = k) es of
             None \<Rightarrow> None
           | Some e0 \<Rightarrow>
               Some \<lparr> expense = template_of e0,
                      months = fold set_add
                        (map (\<lambda>e. yearMonth h (date e)) [e \<leftarrow> es. templateKey h e = k]) [] \<rparr>))"
proof (induction es arbitrary: occ)
  case Nil
  then show ?case
    by (simp split: option.splits)
next
  case (Cons x es)
  show ?case
  proof (cases "templateKey h x = k")
    case True
    then show ?thesis
      by (cases "obj_get occ k")
        (simp_all add: Cons.IH get_occurrence_step set_add_def split: option.splits)
  next
    case False
    then show ?thesis
      by (cases "obj_get occ k")
        (simp_all add: Cons.IH get_occurrence_step split: option.splits)
  qed
qed

lemma obj_get_empty: "obj_get [] k = None"
  by (simp add: obj_get_def)

lemma get_expenseOccurrences:
  "obj_get (expenseOccurrences h es) k =
     (case find (\<lambda>e. templateKey h e = k) es of
        None \<Rightarrow> None
      | Some e0 \<Rightarrow>
          Some \<lparr> expense = template_of e0,
                 months = fold set_add
                   (map (\<lambda>e. yearMonth h (date e)) [e \<leftarrow> es. templateKey h e = k]) [] \<rparr>)"
  by (simp add: expenseOccurrences_def get_occurrence_fold obj_get_empty)

lemma distinct_expenseOccurrences: "distinct (map fst (expenseOccurrences h es))"
  by (simp add: expenseOccurrences_def distinct_occurrence_fold)

lemma entry_expenseOccurrences:
  assumes "(k, item) \<in> set (expenseOccurrences h es)"
  shows "\<exists>e0. find (\<lambda>e. templateKey h e = k) es = Some e0 \<and> expense item = template_of e0
           \<and> templateKey h (expense item) = k
           \<and> length (months item) = card ((\<lambda>e. yearMonth h (date e)) ` {e \<in> set es. templateKey h e = k})"
proof -
  from assms have "obj_get (expenseOccurrences h es) k = Some item"
    by (simp add: obj_get_Some_iff distinct_expenseOccurrences)
  then obtain e0 where f: "find (\<lambda>e. templateKey h e = k) es = Some e0"
    and item: "item = \<lparr> expense = template_of e0,
                 months = fold set_add
                   (map (\<lambda>e. yearMonth h (date e)) [e \<leftarrow> es. templateKey h e = k]) [] \<rparr>"
    unfolding get_expenseOccurrences by (auto split: option.splits)
  from f have key: "templateKey h e0 = k"
    by (auto simp: find_Some_iff)
  have "distinct (months item)"
    unfolding item by (simp add: distinct_fold_set_add)
  then have "length (months item) = card (set (months item))"
    by (simp add: distinct_card)
  also have "set (months item) = (\<lambda>e. yearMonth h (date e)) ` {e \<in> set es. templateKey h e = k}"
    unfolding item by (auto simp: set_fold_set_add)
  finally show ?thesis
    using f key by (auto simp: item templateKey_template_of)
qed

lemma rebuild_template:
  "\<lparr> description = description (t :: template), category = category t, amount = amount t \<rparr> = t"
  by simp

lemma set_recurringExpenses:
  "set (recurringExpenses h now n stored) =
     {expense item | k item.
        (k, item) \<in> set (expenseOccurrences h (recentExpenses h now n stored))
        \<and> 2 \<le> length (months item)}"
proof -
  have "set (obj_values occ) = snd ` set occ" for occ :: "occurrence obj"
    by (simp add: obj_values_def set_obj_entries)
  then show ?thesis
    by (force simp: recurringExpenses_def rebuild_template)
qed

lemma set_recentExpenses:
  "set (recentExpenses h now n stored) = {e \<in> set stored. in_window h now n e}"
  by (simp add: recentExpenses_def)

lemma keys_recurringExpenses:
  "map (templateKey h) (recurringExpenses h now n stored) =
     map fst (filter (\<lambda>p. 2 \<le> length (months (snd p)))
       (obj_entries (expenseOccurrences h (recentExpenses h now n stored))))"
proof -
  let ?occ = "expenseOccurrences h (recentExpenses h now n stored)"
  have "templateKey h (expense (snd p)) = fst p" if "p \<in> set (obj_entries ?occ)" for p
  proof -
    from that have "(fst p, snd p) \<in> set ?occ"
      by (simp add: set_obj_entries)
    from entry_expenseOccurrences [OF this] show ?thesis
      by blast
  qed
  then have "map (\<lambda>p. templateKey h (expense (snd p)))
               (filter (\<lambda>p. 2 \<le> length (months (snd p))) (obj_entries ?occ))
             = map fst (filter (\<lambda>p. 2 \<le> length (months (snd p))) (obj_entries ?occ))"
    by simp
  then show ?thesis
    by (simp add: recurringExpenses_def obj_values_def rebuild_template filter_map comp_def)
qed

lemma distinct_recurring_keys: "distinct (map (templateKey h) (recurringExpenses h now n stored))"
proof -
  have "distinct (map fst (obj_entries (expenseOccurrences h (recentExpenses h now n stored))))"
    using distinct_obj_keys [of "expenseOccurrences h (recentExpenses h now n stored)"]
    by (simp add: obj_keys_def distinct_expenseOccurrences)
  then show ?thesis
    unfolding keys_recurringExpenses by (rule distinct_map_filter)
qed

section \<open>The tags\<close>

lemma get_tag_step:
  "map_of (tag_step h e tags) k =
     (if k = templateKey h e \<and> map_of tags k = None then Some (template_of e) else map_of tags k)"
  by (auto simp: tag_step_def Let_def map_add_def split: option.splits)

lemma get_tag_fold:
  "map_of (fold (tag_step h) es tags) k =
     (case map_of tags k of
        Some t \<Rightarrow> Some t
      | None \<Rightarrow> map_option template_of (find (\<lambda>e. templateKey h e = k) es))"
proof (induction es arbitrary: tags)
  case Nil
  then show ?case
    by (simp split: option.splits)
next
  case (Cons x es)
  show ?case
    by (cases "map_of tags k") (auto simp: Cons.IH get_tag_step)
qed

lemma tag_step_invariant:
  assumes "distinct (map fst tags)" and "\<forall>p \<in> set tags. templateKey h (snd p) = fst p"
  shows "distinct (map fst (tag_step h e tags))
         \<and> (\<forall>p \<in> set (tag_step h e tags). templateKey h (snd p) = fst p)"
proof (cases "map_of tags (templateKey h e)")
  case None
  then have "templateKey h e \<notin> fst ` set tags"
    by (simp add: map_of_eq_None_iff)
  with assms None show ?thesis
    by (auto simp: tag_step_def templateKey_template_of)
next
  case (Some t)
  with assms show ?thesis
    by (simp add: tag_step_def)
qed

lemma tag_fold_invariant:
  assumes "distinct (map fst tags)" and "\<forall>p \<in> set tags. templateKey h (snd p) = fst p"
  shows "distinct (map fst (fold (tag_step h) es tags))
         \<and> (\<forall>p \<in> set (fold (tag_step h) es tags). templateKey h (snd p) = fst p)"
  using assms
proof (induction es arbitrary: tags)
  case Nil
  then show ?case by simp
next
  case (Cons x es)
  from tag_step_invariant [OF Cons.prems, of x]
  have "distinct (map fst (tag_step h x tags))"
    and "\<forall>p \<in> set (tag_step h x tags). templateKey h (snd p) = fst p"
    by simp_all
  from Cons.IH [OF this] show ?case
    by simp
qed

lemma distinct_uniqueTags: "distinct (uniqueTags h now n stored)"
proof -
  let ?tags = "fold (tag_step h) (recentExpenses h now n stored) []"
  from tag_fold_invariant [of "[]" h "recentExpenses h now n stored"]
  have d: "distinct (map fst ?tags)" and k: "\<forall>p \<in> set ?tags. templateKey h (snd p) = fst p"
    by simp_all
  from k have eq: "map (templateKey h) (map snd ?tags) = map fst ?tags"
    by simp
  have "distinct (map (templateKey h) (map snd ?tags))"
    unfolding eq by (rule d)
  then show ?thesis
    unfolding uniqueTags_def by (simp only: distinct_map)
qed

lemma first_in_uniqueTags:
  assumes "find (\<lambda>e. templateKey h e = k) (recentExpenses h now n stored) = Some e0"
  shows "template_of e0 \<in> set (uniqueTags h now n stored)"
proof -
  let ?tags = "fold (tag_step h) (recentExpenses h now n stored) []"
  have "map_of ?tags k = Some (template_of e0)"
    using assms by (simp add: get_tag_fold)
  then have "(k, template_of e0) \<in> set ?tags"
    by (rule map_of_SomeD)
  then show ?thesis
    unfolding uniqueTags_def by force
qed

section \<open>The examples, evaluated\<close>

lemma example_recurring:
  "recurring_handler utc_host march_2024 None example_expenses = Inr [template_of coffee_jan]"
  by code_simp

lemma example_tags_3:
  "tags_handler utc_host march_2024 (Some ''3'') example_expenses
   = Inr [template_of coffee_jan, template_of snack_mar]"
  by code_simp

lemma example_keys:
  "templateKey utc_host (template_of coffee_jan) = ''Coffee|Food|10''"
  by code_simp

lemma example_window_3:
  "numMonths_of None ''3'' = Inr 3" "numMonths_of (Some ''3'') ''2'' = Inr 3"
  by code_simp+

lemma example_templates: "template_of coffee_jan \<noteq> template_of snack_mar"
  by (simp add: template_of_def coffee_jan_def snack_mar_def)

section \<open>Recurring expenses, by key\<close>

text \<open>
  What the recurring report holds, in terms of the keys: for a valid window, the report has
  an entry with a given template key exactly when the expenses of the window with that key
  fall in two or more distinct months. An entry is a record of the three fields description,
  category and amount, those of an expense of the window, and no key has two entries.
\<close>

lemma recurring_by_key:
  assumes "numMonths_of q ''3'' = Inr n"
  shows "\<exists>result. recurring_handler h now q stored = Inr result
     \<and> (\<forall>k. (\<exists>t \<in> set result. templateKey h t = k) \<longleftrightarrow>
            2 \<le> card ((\<lambda>e. yearMonth h (date e)) `
                       {e \<in> set stored. in_window h now n e \<and> templateKey h e = k}))
     \<and> (\<forall>t \<in> set result. \<exists>e \<in> set stored. in_window h now n e \<and> t = template_of e)
     \<and> distinct (map (templateKey h) result)"
proof -
  let ?recent = "recentExpenses h now n stored"
  let ?occ = "expenseOccurrences h ?recent"
  let ?result = "recurringExpenses h now n stored"
  let ?months = "\<lambda>k. (\<lambda>e. yearMonth h (date e)) ` {e \<in> set ?recent. templateKey h e = k}"
  have group: "{e \<in> set ?recent. templateKey h e = k}
               = {e \<in> set stored. in_window h now n e \<and> templateKey h e = k}" for k
    by (auto simp: set_recentExpenses)
  have answer: "recurring_handler h now q stored = Inr ?result"
    using assms by (simp add: recurring_handler_def)
  have iff: "(\<exists>t \<in> set ?result. templateKey h t = k) \<longleftrightarrow> 2 \<le> card (?months k)" for k
  proof
    assume "\<exists>t \<in> set ?result. templateKey h t = k"
    then obtain k' item where mem: "(k', item) \<in> set ?occ" and two: "2 \<le> length (months item)"
      and key: "templateKey h (expense item) = k"
      unfolding set_recurringExpenses by blast
    from entry_expenseOccurrences [OF mem] key have "k' = k"
      and "length (months item) = card (?months k')"
      by auto
    with two show "2 \<le> card (?months k)"
      by simp
  next
    assume two: "2 \<le> card (?months k)"
    have "?months k \<noteq> {}"
    proof
      assume "?months k = {}"
      then have "card (?months k) = 0"
        by (simp only: card.empty)
      with two show False
        by simp
    qed
    then obtain e where "e \<in> set ?recent" and "templateKey h e = k"
      by blast
    then have "find (\<lambda>e. templateKey h e = k) ?recent \<noteq> None"
      by (auto simp: find_None_iff)
    then obtain item where "obj_get ?occ k = Some item"
      unfolding get_expenseOccurrences by (auto split: option.splits)
    then have mem: "(k, item) \<in> set ?occ"
      by (simp add: obj_get_Some_iff distinct_expenseOccurrences)
    from entry_expenseOccurrences [OF mem] two
    have "2 \<le> length (months item)" and "templateKey h (expense item) = k"
      by auto
    with mem show "\<exists>t \<in> set ?result. templateKey h t = k"
      unfolding set_recurringExpenses by blast
  qed
  have from_window: "\<exists>e \<in> set stored. in_window h now n e \<and> t = template_of e"
    if "t \<in> set ?result" for t
  proof -
    from that obtain k item where mem: "(k, item) \<in> set ?occ" and t: "t = expense item"
      unfolding set_recurringExpenses by blast
    from entry_expenseOccurrences [OF mem] obtain e0
      where "find (\<lambda>e. templateKey h e = k) ?recent = Some e0" and "expense item = template_of e0"
      by blast
    then have "e0 \<in> set ?recent" and "t = template_of e0"
      using t by (auto simp: find_Some_iff)
    then show ?thesis
      by (auto simp: set_recentExpenses)
  qed
  from answer iff from_window distinct_recurring_keys [of h now n stored] show ?thesis
    unfolding group by blast
qed

section \<open>Recurring expenses\<close>

text \<open>
  Claim C1. A template group, the expenses of the window with one triple (description,
  category, amount), is to be in the recurring report exactly when its expenses fall in
  two or more distinct months. The handler forms its groups by the template key, and these
  two expenses of the window have one key: the report has an entry for the triple of the
  first, which only that expense has, in the one month 2024-01.
\<close>

theorem recurring_merged_months:
  "in_window utc_host march_2024 3 pipe_jan \<and> in_window utc_host march_2024 3 pipe_feb
   \<and> recurring_handler utc_host march_2024 None [pipe_jan, pipe_feb] = Inr [template_of pipe_jan]
   \<and> [e \<leftarrow> [pipe_jan, pipe_feb]. template_of e = template_of pipe_jan] = [pipe_jan]
   \<and> map (\<lambda>e. yearMonth utc_host (date e))
         [e \<leftarrow> [pipe_jan, pipe_feb]. template_of e = template_of pipe_jan] = [''2024-01'']"
proof -
  have window: "in_window utc_host march_2024 3 pipe_jan \<and> in_window utc_host march_2024 3 pipe_feb"
    by code_simp
  have report: "recurring_handler utc_host march_2024 None [pipe_jan, pipe_feb]
                = Inr [template_of pipe_jan]"
    by code_simp
  have one: "[e \<leftarrow> [pipe_jan, pipe_feb]. template_of e = template_of pipe_jan] = [pipe_jan]"
    by (simp add: template_of_def pipe_jan_def pipe_feb_def)
  have month: "yearMonth utc_host (date pipe_jan) = ''2024-01''"
    by code_simp
  show ?thesis
    unfolding one using window report month by simp
qed

section \<open>Tags and recurring expenses\<close>

text \<open>
  Claim C7. When the tags and the recurring report are computed at the same moment with
  the same window, every template of the recurring report is among the tags, and no
  template comes twice in the tags.
\<close>

theorem tags_cover_recurring:
  assumes "numMonths_of q1 ''3'' = Inr n" and "numMonths_of q2 ''2'' = Inr n"
  shows "\<exists>recurring tags.
           recurring_handler h now q1 stored = Inr recurring
           \<and> tags_handler h now q2 stored = Inr tags
           \<and> set recurring \<subseteq> set tags
           \<and> distinct tags"
proof -
  let ?recent = "recentExpenses h now n stored"
  have "t \<in> set (uniqueTags h now n stored)" if "t \<in> set (recurringExpenses h now n stored)" for t
  proof -
    from that obtain k item where mem: "(k, item) \<in> set (expenseOccurrences h ?recent)"
      and t: "t = expense item"
      unfolding set_recurringExpenses by blast
    from entry_expenseOccurrences [OF mem] obtain e0
      where "find (\<lambda>e. templateKey h e = k) ?recent = Some e0" and "expense item = template_of e0"
      by blast
    with t first_in_uniqueTags [of h k now n stored e0] show ?thesis
      by simp
  qed
  then have "set (recurringExpenses h now n stored) \<subseteq> set (uniqueTags h now n stored)"
    by blast
  with assms distinct_uniqueTags [of h now n stored] show ?thesis
    by (simp add: recurring_handler_def tags_handler_def)
qed

theorem tags_cover_recurring_witness:
  "numMonths_of None ''3'' = Inr 3 \<and> numMonths_of (Some ''3'') ''2'' = Inr 3
   \<and> recurring_handler utc_host march_2024 None example_expenses
       = Inr [template_of coffee_jan]
   \<and> tags_handler utc_host march_2024 (Some ''3'') example_expenses
       = Inr [template_of coffee_jan, template_of snack_mar]
   \<and> set [template_of coffee_jan] \<subseteq> set [template_of coffee_jan, template_of snack_mar]
   \<and> distinct [template_of coffee_jan, template_of snack_mar]"
proof -
  from tags_cover_recurring [OF example_window_3(1) example_window_3(2),
      of utc_host march_2024 example_expenses]
  obtain recurring tags
    where "recurring_handler utc_host march_2024 None example_expenses = Inr recurring"
      and "tags_handler utc_host march_2024 (Some ''3'') example_expenses = Inr tags"
      and sub: "set recurring \<subseteq> set tags" and dist: "distinct tags"
    by blast
  then have "recurring = [template_of coffee_jan]"
    and "tags = [template_of coffee_jan, template_of snack_mar]"
    unfolding example_recurring example_tags_3 by simp_all
  with sub dist show ?thesis
    using example_window_3 example_recurring example_tags_3 by simp
qed

section \<open>The template key\<close>

text \<open>
  Claim C4. Two expenses are to share a group exactly when their triples (description,
  category, amount) are equal. The key joins the three fields with \<open>|\<close>, and a field may
  contain that character: these two expenses with different triples have one key, the
  recurring report takes them for one charge seen in two months, and the tags keep one
  entry for the two.
\<close>

theorem template_key_collision:
  "template_of pipe_jan \<noteq> template_of pipe_feb
   \<and> templateKey utc_host pipe_jan = templateKey utc_host pipe_feb
   \<and> recurring_handler utc_host march_2024 None [pipe_jan, pipe_feb] = Inr [template_of pipe_jan]
   \<and> tags_handler utc_host march_2024 None [pipe_jan, pipe_feb] = Inr [template_of pipe_jan]"
proof -
  have "template_of pipe_jan \<noteq> template_of pipe_feb"
    by (simp add: template_of_def pipe_jan_def pipe_feb_def)
  moreover have "templateKey utc_host pipe_jan = templateKey utc_host pipe_feb"
    by (simp add: templateKey_def pipe_jan_def pipe_feb_def)
  moreover have "recurring_handler utc_host march_2024 None [pipe_jan, pipe_feb]
                 = Inr [template_of pipe_jan]"
    by code_simp
  moreover have "tags_handler utc_host march_2024 None [pipe_jan, pipe_feb]
                 = Inr [template_of pipe_jan]"
    by code_simp
  ultimately show ?thesis
    by blast
qed



end
